theory Spec2Isabelle
  imports Complex_Main "HOL-Library.Word"
begin

section \<open>Channel status records and snapshots\<close>

text \<open>
  The status enumeration of ChannelStatus.h, as it is used by the switch in
  SIOVChannelStatusProvider::Update.
\<close>

datatype chStatus = kDISCONNECTED | kDEAD | kLOWNOISE | kNOISY | kGOOD | kUNKNOWN

type_synonym DBChannelID_t = "32 word"
type_synonym DBTimeStamp_t = nat

record ChannelStatus =
  fChannel :: DBChannelID_t
  fStatus :: chStatus

datatype error = IOVDataError

text \<open>
  Modelled from the spec: the Snapshot class (Snapshot.h is not among the sources) is the
  spec's Status Table, a mapping from channel to Status Record with an attached validity
  interval, with add-or-replace insertion. That GetRow raises IOVDataError for a channel
  without a row is read off the handler in GetChannelStatus, which catches exactly that
  exception around the call.
\<close>

record Snapshot =
  rows :: "DBChannelID_t \<rightharpoonup> ChannelStatus"
  iov_begin :: DBTimeStamp_t
  iov_end :: DBTimeStamp_t

text \<open>
  Modelled from the spec: the member functions of Snapshot that the provider calls. A
  new table has no rows; Clear drops the rows; AddOrReplaceRow files a record under its
  channel, replacing the one that was there.
\<close>

definition empty_Snapshot :: Snapshot where
  "empty_Snapshot = \<lparr>rows = Map.empty, iov_begin = 0, iov_end = 0\<rparr>"

definition Clear :: "Snapshot \<Rightarrow> Snapshot" where
  "Clear s = s\<lparr>rows := Map.empty\<rparr>"

definition SetIoV :: "DBTimeStamp_t \<Rightarrow> DBTimeStamp_t \<Rightarrow> Snapshot \<Rightarrow> Snapshot" where
  "SetIoV b e s = s\<lparr>iov_begin := b, iov_end := e\<rparr>"

definition AddOrReplaceRow :: "ChannelStatus \<Rightarrow> Snapshot \<Rightarrow> Snapshot" where
  "AddOrReplaceRow cs s = s\<lparr>rows := (rows s)(fChannel cs \<mapsto> cs)\<rparr>"

definition GetRow :: "Snapshot \<Rightarrow> DBChannelID_t \<Rightarrow> error + ChannelStatus" where
  "GetRow s ch = (case rows s ch of None \<Rightarrow> Inl IOVDataError | Some cs \<Rightarrow> Inr cs)"

section \<open>The backing store\<close>

text \<open>
  Modelled from the spec: the folder of DatabaseRetrievalAlg (not among the sources)
  caches the rows fetched last together with their validity interval. Update reads it
  through Begin, End, GetChannelList and GetNamedChannelData for the column "status".
\<close>

record DBFolder =
  cached_begin :: DBTimeStamp_t
  cached_end :: DBTimeStamp_t
  channel_list :: "DBChannelID_t list"
  status_column :: "DBChannelID_t \<Rightarrow> int"

text \<open>
  Modelled from the spec: a timestamp is covered iff begin \<le> t < end.
\<close>

definition covers :: "DBFolder \<Rightarrow> DBTimeStamp_t \<Rightarrow> bool" where
  "covers f t \<longleftrightarrow> cached_begin f \<le> t \<and> t < cached_end f"

text \<open>
  Modelled from the spec: UpdateFolder of DatabaseRetrievalAlg (not among the sources).
  A covered timestamp is a cache hit and nothing is fetched; otherwise the Backing Store
  is asked for the rows valid at the timestamp; a failed fetch (None) leaves the cached
  folder as it was and reports that nothing was refreshed. The first component of the
  result tells whether the folder was replaced, the last whether the Backing Store was
  consulted.
\<close>

definition UpdateFolder ::
  "(DBTimeStamp_t \<Rightarrow> DBFolder option) \<Rightarrow> DBTimeStamp_t \<Rightarrow> DBFolder \<Rightarrow> bool \<times> DBFolder \<times> bool" where
  "UpdateFolder fetch ts f =
     (if covers f ts then (False, f, False)
      else case fetch ts of
             None \<Rightarrow> (False, f, True)
           | Some f' \<Rightarrow> (True, f', True))"

section \<open>SIOVChannelStatusProvider\<close>

datatype DataSource = Database | File | Default

record SIOVChannelStatusProvider =
  fDataSource :: DataSource
  fData :: Snapshot
  fNewNoisy :: Snapshot
  fDefault :: ChannelStatus
  fFolder :: DBFolder

text \<open>
  Modelled from the spec: the numeric codes of the enumerators (declared in
  ChannelStatus.h, not among the sources), in their order of declaration.
\<close>

fun status_code :: "chStatus \<Rightarrow> int" where
  "status_code kDISCONNECTED = 0"
| "status_code kDEAD = 1"
| "status_code kLOWNOISE = 2"
| "status_code kNOISY = 3"
| "status_code kGOOD = 4"
| "status_code kUNKNOWN = 5"

text \<open>The switch of Update: every code without a case of its own is kUNKNOWN.\<close>

definition decode_status :: "int \<Rightarrow> chStatus" where
  "decode_status status =
     (if status = status_code kDISCONNECTED then kDISCONNECTED
      else if status = status_code kDEAD then kDEAD
      else if status = status_code kLOWNOISE then kLOWNOISE
      else if status = status_code kNOISY then kNOISY
      else if status = status_code kGOOD then kGOOD
      else kUNKNOWN)"

text \<open>
  The constructor. The parameters stand for what it reads from its environment: the two
  configuration flags, the channels the geometry enumerates wire by wire
  (PlaneWireToChannel over begin_wire_id .. end_wire_id), the status a freshly
  constructed ChannelStatus carries (its constructor is not among the sources) and the
  folder of the retrieval algorithm.
\<close>

definition data_source :: "bool \<Rightarrow> bool \<Rightarrow> DataSource" where
  "data_source UseDB UseFile = (if UseDB then Database else if UseFile then File else Default)"

definition construct ::
  "bool \<Rightarrow> bool \<Rightarrow> DBChannelID_t list \<Rightarrow> chStatus \<Rightarrow> DBFolder \<Rightarrow> SIOVChannelStatusProvider" where
  "construct UseDB UseFile wire_channels init_status folder =
     (let src = data_source UseDB UseFile in
      \<lparr>fDataSource = src,
       fData = (if src = Default
                then fold (\<lambda>ch. AddOrReplaceRow \<lparr>fChannel = ch, fStatus = kGOOD\<rparr>)
                       wire_channels empty_Snapshot
                else empty_Snapshot),
       fNewNoisy = empty_Snapshot,
       fDefault = \<lparr>fChannel = 0, fStatus = init_status\<rparr>,
       fFolder = folder\<rparr>)"

text \<open>
  Update returns the refreshed flag and the new provider; the third component records
  whether the Backing Store was consulted, which the source does not return but which
  the specification speaks about. UpdateFolder, inherited from DatabaseRetrievalAlg, is the
  parameter uf: given the timestamp and the folder it answers whether the folder was
  replaced, the folder afterwards and whether the Backing Store was consulted.
\<close>

definition refresh_rows :: "DBFolder \<Rightarrow> Snapshot \<Rightarrow> Snapshot" where
  "refresh_rows f d =
     fold (\<lambda>ch. AddOrReplaceRow \<lparr>fChannel = ch, fStatus = decode_status (status_column f ch)\<rparr>)
       (channel_list f) (SetIoV (cached_begin f) (cached_end f) (Clear d))"

definition Update ::
  "(DBTimeStamp_t \<Rightarrow> DBFolder \<Rightarrow> bool \<times> DBFolder \<times> bool) \<Rightarrow> DBTimeStamp_t
     \<Rightarrow> SIOVChannelStatusProvider \<Rightarrow> bool \<times> SIOVChannelStatusProvider \<times> bool" where
  "Update uf ts p =
     (let p1 = p\<lparr>fNewNoisy := Clear (fNewNoisy p)\<rparr> in
      if fDataSource p1 \<noteq> Database then (False, p1, False)
      else case uf ts (fFolder p1) of
             (updated, f, asked) \<Rightarrow>
               if \<not> updated then (False, p1\<lparr>fFolder := f\<rparr>, asked)
               else (True, p1\<lparr>fFolder := f, fData := refresh_rows f (fData p1)\<rparr>, asked))"

text \<open>rawToDBChannel is the conversion between two 32-bit unsigned types.\<close>

definition rawToDBChannel :: "32 word \<Rightarrow> DBChannelID_t" where
  "rawToDBChannel ch = ch"

definition GetChannelStatus :: "SIOVChannelStatusProvider \<Rightarrow> 32 word \<Rightarrow> error + ChannelStatus" where
  "GetChannelStatus p ch =
     (case GetRow (fNewNoisy p) (rawToDBChannel ch) of
        Inr cs \<Rightarrow> Inr cs
      | Inl IOVDataError \<Rightarrow> GetRow (fData p) (rawToDBChannel ch))"





text \<open>
  Modelled from the spec: IsPresent and IsBad are defined in the header, which is not
  among the sources. The spec: is_present is true iff the persistent-table status is
  not Disconnected, is_bad iff it is Dead or LowNoise, both queried against the
  persistent table only, a channel without a record counting as Unknown.
\<close>

definition persistent_status :: "SIOVChannelStatusProvider \<Rightarrow> DBChannelID_t \<Rightarrow> chStatus" where
  "persistent_status p ch = (case rows (fData p) ch of None \<Rightarrow> kUNKNOWN | Some cs \<Rightarrow> fStatus cs)"

definition IsPresent :: "SIOVChannelStatusProvider \<Rightarrow> DBChannelID_t \<Rightarrow> bool" where
  "IsPresent p ch \<longleftrightarrow> persistent_status p ch \<noteq> kDISCONNECTED"

definition IsBad :: "SIOVChannelStatusProvider \<Rightarrow> DBChannelID_t \<Rightarrow> bool" where
  "IsBad p ch \<longleftrightarrow> persistent_status p ch = kDEAD \<or> persistent_status p ch = kLOWNOISE"

definition AddNoisyChannel :: "32 word \<Rightarrow> SIOVChannelStatusProvider \<Rightarrow> SIOVChannelStatusProvider" where
  "AddNoisyChannel ch p =
     (let dbch = rawToDBChannel ch in
      if \<not> IsBad p dbch \<and> IsPresent p dbch
      then p\<lparr>fNewNoisy := AddOrReplaceRow \<lparr>fChannel = dbch, fStatus = kNOISY\<rparr> (fNewNoisy p)\<rparr>
      else p)"

text \<open>
  The states a provider can be in: as constructed, and after any sequence of Update and
  AddNoisyChannel calls, whatever the Backing Store answers.
\<close>

inductive reachable :: "SIOVChannelStatusProvider \<Rightarrow> bool" where
  r_construct: "reachable (construct UseDB UseFile wire_channels init_status folder)"
| r_Update: "reachable p \<Longrightarrow> reachable (fst (snd (Update uf ts p)))"
| r_AddNoisy: "reachable p \<Longrightarrow> reachable (AddNoisyChannel ch p)"

section \<open>The noisy-channel classifier\<close>

subsection \<open>Double-precision values\<close>

text \<open>
  A double is a real number, an infinity or NaN. In the sums of the two loops and in
  the mean and the rms rounding is not modelled: a finite result is the exact real.
  (The target count, which steers the two loops, is computed with rounding; see below.)
  Division follows IEEE 754 for a zero divisor (the divisors of the source are
  converted ints, so a zero divisor is +0): 0/0 is NaN and x/0 an infinity; neither
  traps.
\<close>

datatype dbl = Fin real | PInf | NInf | NaN

fun dneg :: "dbl \<Rightarrow> dbl" where
  "dneg (Fin a) = Fin (- a)"
| "dneg PInf = NInf"
| "dneg NInf = PInf"
| "dneg NaN = NaN"

fun dadd :: "dbl \<Rightarrow> dbl \<Rightarrow> dbl" where
  "dadd (Fin a) (Fin b) = Fin (a + b)"
| "dadd NaN y = NaN"
| "dadd x NaN = NaN"
| "dadd PInf NInf = NaN"
| "dadd NInf PInf = NaN"
| "dadd PInf y = PInf"
| "dadd x PInf = PInf"
| "dadd NInf y = NInf"
| "dadd x NInf = NInf"

definition dsub :: "dbl \<Rightarrow> dbl \<Rightarrow> dbl" where
  "dsub x y = dadd x (dneg y)"

fun dmul :: "dbl \<Rightarrow> dbl \<Rightarrow> dbl" where
  "dmul (Fin a) (Fin b) = Fin (a * b)"
| "dmul NaN y = NaN"
| "dmul x NaN = NaN"
| "dmul (Fin a) y = (if a = 0 then NaN else if 0 < a then y else dneg y)"
| "dmul x (Fin b) = (if b = 0 then NaN else if 0 < b then x else dneg x)"
| "dmul PInf y = y"
| "dmul NInf y = dneg y"

fun ddiv :: "dbl \<Rightarrow> dbl \<Rightarrow> dbl" where
  "ddiv (Fin a) (Fin b) =
     (if b \<noteq> 0 then Fin (a / b) else if a = 0 then NaN else if 0 < a then PInf else NInf)"
| "ddiv NaN y = NaN"
| "ddiv x NaN = NaN"
| "ddiv (Fin a) y = Fin 0"
| "ddiv x (Fin b) = (if 0 \<le> b then x else dneg x)"
| "ddiv x y = NaN"

text \<open>std::max(0., x) is (0. < x) ? x : 0., so a NaN argument gives 0.\<close>

fun dmax0 :: "dbl \<Rightarrow> dbl" where
  "dmax0 (Fin a) = (if 0 < a then Fin a else Fin 0)"
| "dmax0 PInf = PInf"
| "dmax0 NInf = Fin 0"
| "dmax0 NaN = Fin 0"

fun dsqrt :: "dbl \<Rightarrow> dbl" where
  "dsqrt (Fin a) = (if a < 0 then NaN else Fin (sqrt a))"
| "dsqrt PInf = PInf"
| "dsqrt NInf = NaN"
| "dsqrt NaN = NaN"

fun dge :: "dbl \<Rightarrow> dbl \<Rightarrow> bool" where
  "dge (Fin a) (Fin b) = (b \<le> a)"
| "dge NaN y = False"
| "dge x NaN = False"
| "dge PInf y = True"
| "dge x NInf = True"
| "dge x y = False"

subsection \<open>The histogram\<close>

text \<open>
  A short is a 16-bit word read in two's complement by sint. The std::map from short
  to short keeps its entries in ascending key order: an association list sorted by the
  signed value of the key. The increment of a count wraps around in 16 bits: the
  operand is promoted to int, and converting 32768 back to short gives -32768 on every
  two's-complement implementation (and by definition since C++20).
\<close>

type_synonym short = "16 word"
type_synonym binAdcMap = "(short \<times> short) list"

text \<open>binAdcMap[adcVal]++, which creates the entry with count 0 when it is missing.\<close>

fun increment :: "short \<Rightarrow> binAdcMap \<Rightarrow> binAdcMap" where
  "increment v [] = [(v, 1)]"
| "increment v ((k, c) # m) =
     (if v = k then (k, c + 1) # m
      else if sint v < sint k then (v, 1) # (k, c) # m
      else (k, c) # increment v m)"

definition populate :: "short list \<Rightarrow> binAdcMap" where
  "populate rawadc = fold increment rawadc []"

text \<open>
  The value of binAdcMap[k] in the two expansion loops. The subscript also inserts an
  entry with count 0 for a missing key; that insertion changes no value read later and
  the map is not iterated again, so the loops are modelled as reading only.
\<close>

fun count_at :: "binAdcMap \<Rightarrow> short \<Rightarrow> short" where
  "count_at [] k = 0"
| "count_at ((k', c) # m) k = (if k = k' then c else count_at m k)"

text \<open>The scan for the most populated bin, from binMax(-1) and binMaxCnt(0).\<close>

definition max_step :: "short \<times> short \<Rightarrow> short \<times> short \<Rightarrow> short \<times> short" where
  "max_step e best = (if sint (snd best) < sint (snd e) then e else best)"

definition find_max_bin :: "binAdcMap \<Rightarrow> short \<times> short" where
  "find_max_bin m = fold max_step m (- 1, 0)"

subsection \<open>The target count\<close>

text \<open>
  Binary floating point with a significand of p bits, 53 for a double and 24 for a
  float: rnd p x is the multiple of 2 ^ (e - p + 1) nearest to x, where e is the binary
  exponent of x, the floor of its logarithm to base 2; of two nearest multiples the even
  one is taken (round to nearest, ties to even, the default rounding mode). The range of
  the exponent is not limited: the operands of the target count are far from overflow
  and from the subnormal numbers.
\<close>

definition pow2 :: "int \<Rightarrow> real" where
  "pow2 z = (if 0 \<le> z then 2 ^ nat z else 1 / 2 ^ nat (- z))"

definition round_even :: "real \<Rightarrow> int" where
  "round_even y =
     (if y - of_int \<lfloor>y\<rfloor> < 1 / 2 then \<lfloor>y\<rfloor>
      else if 1 / 2 < y - of_int \<lfloor>y\<rfloor> then \<lfloor>y\<rfloor> + 1
      else if even \<lfloor>y\<rfloor> then \<lfloor>y\<rfloor> else \<lfloor>y\<rfloor> + 1)"

definition rnd :: "nat \<Rightarrow> real \<Rightarrow> real" where
  "rnd p x =
     (if x = 0 then 0
      else of_int (round_even (x / pow2 (\<lfloor>log 2 \<bar>x\<bar>\<rfloor> - int p + 1)))
             * pow2 (\<lfloor>log 2 \<bar>x\<bar>\<rfloor> - int p + 1))"


text \<open>The conversion of a double to int discards the fractional part.\<close>

definition to_int :: "real \<Rightarrow> int" where
  "to_int x = (if 0 \<le> x then \<lfloor>x\<rfloor> else - \<lfloor>- x\<rfloor>)"

text \<open>
  int minNumBins = (1. - fTruncMeanFraction) * dataSize - 1, where dataSize is the
  digit's own Samples(), an unsigned int. The parameter fTruncMeanFraction is the value
  of the float member. The member is promoted to double and dataSize and the literal 1
  are converted to double, all without loss; the difference, the product and the second
  difference are operations on doubles, each one rounded (the product and the second
  difference are not contracted into one fused operation). The result is in the range
  of int whenever dataSize is below 2 ^ 31 and the fraction is between 0 and 1.
\<close>

definition minNumBins :: "real \<Rightarrow> nat \<Rightarrow> int" where
  "minNumBins fTruncMeanFraction dataSize =
     to_int (rnd 53 (rnd 53 (rnd 53 (1 - fTruncMeanFraction) * real dataSize) - 1))"

subsection \<open>The two expansion loops\<close>

text \<open>
  The key of a bin at an offset: binMax and binOffset are promoted to int, and the sum
  or difference is converted back to short where it subscripts the map.
\<close>

definition lower_bin :: "short \<Rightarrow> short \<Rightarrow> int" where
  "lower_bin binMax binOffset = sint binMax - sint binOffset"

definition upper_bin :: "short \<Rightarrow> short \<Rightarrow> int" where
  "upper_bin binMax binOffset = sint binMax + sint binOffset"

definition key_of :: "int \<Rightarrow> short" where
  "key_of i = word_of_int i"

text \<open>
  One iteration of the first loop on (curBinCnt, truncMean, binOffset). The counts are
  added as ints; the product count * bin is an int product, which cannot overflow 32
  bits for 16-bit operands of these ranges. The increment of binOffset wraps around in
  16 bits.
\<close>

definition mean_add :: "binAdcMap \<Rightarrow> int \<Rightarrow> int \<times> dbl \<Rightarrow> int \<times> dbl" where
  "mean_add m bin acc =
     (if count_at m (key_of bin) \<noteq> 0
      then (fst acc + sint (count_at m (key_of bin)),
            dadd (snd acc) (Fin (of_int (sint (count_at m (key_of bin)) * bin))))
      else acc)"

definition mean_step :: "binAdcMap \<Rightarrow> short \<Rightarrow> int \<times> dbl \<times> short \<Rightarrow> int \<times> dbl \<times> short" where
  "mean_step m binMax s =
     (case s of (curBinCnt, truncMean, binOffset) \<Rightarrow>
        (case mean_add m (upper_bin binMax binOffset)
                (mean_add m (lower_bin binMax binOffset) (curBinCnt, truncMean)) of
           (curBinCnt', truncMean') \<Rightarrow> (curBinCnt', truncMean', binOffset + 1)))"

partial_function (option) mean_loop ::
  "binAdcMap \<Rightarrow> short \<Rightarrow> int \<Rightarrow> int \<times> dbl \<times> short \<Rightarrow> (int \<times> dbl \<times> short) option" where
  "mean_loop m binMax minBins s =
     (if fst s < minBins then mean_loop m binMax minBins (mean_step m binMax s) else Some s)"

text \<open>One iteration of the second loop on (rmsBinCnt, rmsVal, binOffset).\<close>

definition rms_add :: "binAdcMap \<Rightarrow> dbl \<Rightarrow> int \<Rightarrow> int \<times> dbl \<Rightarrow> int \<times> dbl" where
  "rms_add m truncMean binIdx acc =
     (if 0 < sint (count_at m (key_of binIdx))
      then (let binCnt = sint (count_at m (key_of binIdx));
                binVals = dsub (Fin (of_int binIdx)) truncMean
            in (fst acc + binCnt, dadd (snd acc) (dmul (dmul (Fin (of_int binCnt)) binVals) binVals)))
      else acc)"

definition rms_step ::
  "binAdcMap \<Rightarrow> short \<Rightarrow> dbl \<Rightarrow> int \<times> dbl \<times> short \<Rightarrow> int \<times> dbl \<times> short" where
  "rms_step m binMax truncMean s =
     (case s of (rmsBinCnt, rmsVal, binOffset) \<Rightarrow>
        (case rms_add m truncMean (upper_bin binMax binOffset)
                (rms_add m truncMean (lower_bin binMax binOffset) (rmsBinCnt, rmsVal)) of
           (rmsBinCnt', rmsVal') \<Rightarrow> (rmsBinCnt', rmsVal', binOffset + 1)))"

partial_function (option) rms_loop ::
  "binAdcMap \<Rightarrow> short \<Rightarrow> dbl \<Rightarrow> int \<Rightarrow> int \<times> dbl \<times> short \<Rightarrow> (int \<times> dbl \<times> short) option" where
  "rms_loop m binMax truncMean minBins s =
     (if fst s < minBins then rms_loop m binMax truncMean minBins (rms_step m binMax truncMean s)
      else Some s)"

subsection \<open>The statistics of one channel\<close>

text \<open>
  The body of the loop over the raw digits, from the histogram to the rms, for the
  uncompressed samples rawadc and the digit's own sample count dataSize. The result is
  None when one of the two loops does not return.
\<close>

record channel_stats =
  truncMean :: dbl
  rmsVal :: dbl
  curBinCnt :: int
  rmsBinCnt :: int
  meanOffset :: short
  rmsOffset :: short

definition mean_pass :: "binAdcMap \<Rightarrow> int \<Rightarrow> (int \<times> dbl \<times> short) option" where
  "mean_pass m minBins =
     (case find_max_bin m of (binMax, binMaxCnt) \<Rightarrow>
        mean_loop m binMax minBins
          (sint binMaxCnt, Fin (of_int (sint binMaxCnt * sint binMax)), 1))"

definition rms_pass :: "binAdcMap \<Rightarrow> int \<Rightarrow> dbl \<Rightarrow> (int \<times> dbl \<times> short) option" where
  "rms_pass m minBins mean =
     (case find_max_bin m of (binMax, binMaxCnt) \<Rightarrow>
        (let d = dsub (Fin (of_int (sint binMax))) mean
         in rms_loop m binMax mean minBins
              (sint binMaxCnt, dmul d (dmul (Fin (of_int (sint binMaxCnt))) d), 1)))"

definition analyze_channel :: "real \<Rightarrow> nat \<Rightarrow> short list \<Rightarrow> channel_stats option" where
  "analyze_channel fTruncMeanFraction dataSize rawadc =
     (let m = populate rawadc; minBins = minNumBins fTruncMeanFraction dataSize in
      case mean_pass m minBins of
        None \<Rightarrow> None
      | Some (cnt1, sum1, off1) \<Rightarrow>
          (let mean = ddiv sum1 (Fin (of_int cnt1)) in
           case rms_pass m minBins mean of
             None \<Rightarrow> None
           | Some (cnt2, sum2, off2) \<Rightarrow>
               Some \<lparr>truncMean = mean,
                     rmsVal = dsqrt (dmax0 (ddiv sum2 (Fin (of_int cnt2)))),
                     curBinCnt = cnt1, rmsBinCnt = cnt2,
                     meanOffset = off1, rmsOffset = off2\<rparr>))"

subsection \<open>FindNoisyChannels\<close>

text \<open>
  A raw digit with its channel, its own sample count and its packed ADC vector. The
  decompression utility is the parameter Uncompress: it fills a buffer of the given
  size from the digit. The threshold fRmsCut[geo->View(channel)] is the parameter
  fRmsCut, a function of the channel. maxTimeSamples is declared outside the loop, so
  it is the minimum over the digits analysed so far and the detector's
  NumberTimeSamples.
\<close>

record RawDigit =
  Channel :: "32 word"
  Samples :: nat
  ADCs :: "short list"

fun analyze_digits ::
  "real \<Rightarrow> (32 word \<Rightarrow> dbl) \<Rightarrow> (RawDigit \<Rightarrow> nat \<Rightarrow> short list) \<Rightarrow> nat \<Rightarrow> RawDigit list
     \<Rightarrow> SIOVChannelStatusProvider \<Rightarrow> SIOVChannelStatusProvider option" where
  "analyze_digits ftmf fRmsCut Uncompress maxTimeSamples [] p = Some p"
| "analyze_digits ftmf fRmsCut Uncompress maxTimeSamples (d # ds) p =
     (if IsBad p (Channel d) \<or> \<not> IsPresent p (Channel d)
      then analyze_digits ftmf fRmsCut Uncompress maxTimeSamples ds p
      else
        (let dataSize = Samples d;
             maxTimeSamples' = min maxTimeSamples dataSize;
             rawadc = Uncompress d maxTimeSamples'
         in case analyze_channel ftmf dataSize rawadc of
              None \<Rightarrow> None
            | Some st \<Rightarrow>
                analyze_digits ftmf fRmsCut Uncompress maxTimeSamples' ds
                  (if dge (rmsVal st) (fRmsCut (Channel d)) then AddNoisyChannel (Channel d) p else p)))"

text \<open>The digits are None when the handle is not valid.\<close>

definition FindNoisyChannels ::
  "real \<Rightarrow> (32 word \<Rightarrow> dbl) \<Rightarrow> (RawDigit \<Rightarrow> nat \<Rightarrow> short list) \<Rightarrow> nat \<Rightarrow> RawDigit list option
     \<Rightarrow> SIOVChannelStatusProvider \<Rightarrow> SIOVChannelStatusProvider option" where
  "FindNoisyChannels ftmf fRmsCut Uncompress NumberTimeSamples digits p =
     (case digits of
        None \<Rightarrow> Some p
      | Some ds \<Rightarrow> analyze_digits ftmf fRmsCut Uncompress NumberTimeSamples ds p)"

text \<open>PreProcessEvent: the update from the database, then the search when it is enabled.\<close>

definition PreProcessEvent ::
  "(DBTimeStamp_t \<Rightarrow> DBFolder \<Rightarrow> bool \<times> DBFolder \<times> bool) \<Rightarrow> bool \<Rightarrow> real \<Rightarrow> (32 word \<Rightarrow> dbl)
     \<Rightarrow> (RawDigit \<Rightarrow> nat \<Rightarrow> short list) \<Rightarrow> nat \<Rightarrow> DBTimeStamp_t \<Rightarrow> RawDigit list option
     \<Rightarrow> SIOVChannelStatusProvider \<Rightarrow> SIOVChannelStatusProvider option" where
  "PreProcessEvent uf fFindNoisyChannels ftmf fRmsCut Uncompress NumberTimeSamples ts digits p =
     (let p' = fst (snd (Update uf ts p)) in
      if fFindNoisyChannels
      then FindNoisyChannels ftmf fRmsCut Uncompress NumberTimeSamples digits p'
      else Some p')"

section \<open>Notions used in the statements\<close>

text \<open>The count and the offset of a loop state, without the floating-point sum.\<close>

definition cnt_off :: "int \<times> dbl \<times> short \<Rightarrow> int \<times> short" where
  "cnt_off s = (fst s, snd (snd s))"

text \<open>The order invariant of the std::map: keys strictly ascending as signed values.\<close>

definition key_sorted :: "binAdcMap \<Rightarrow> bool" where
  "key_sorted m \<longleftrightarrow> sorted_wrt (\<lambda>a b. sint (fst a) < sint (fst b)) m"

text \<open>No count of the histogram has wrapped around into the negative shorts.\<close>

definition no_wrapped_count :: "binAdcMap \<Rightarrow> bool" where
  "no_wrapped_count m \<longleftrightarrow> (\<forall>k. 0 \<le> sint (count_at m k))"

text \<open>
  The invariant of the overlay: every record is a kNOISY record filed under its own
  channel, for a channel that the persistent table has as present and not bad.
\<close>

definition overlay_inv :: "SIOVChannelStatusProvider \<Rightarrow> bool" where
  "overlay_inv p \<longleftrightarrow>
     (\<forall>ch cs. rows (fNewNoisy p) ch = Some cs \<longrightarrow>
        fChannel cs = ch \<and> fStatus cs = kNOISY \<and> IsPresent p ch \<and> \<not> IsBad p ch)"

subsection \<open>Example states and inputs\<close>

definition folder0 :: DBFolder where
  "folder0 = \<lparr>cached_begin = 0, cached_end = 0, channel_list = [], status_column = (\<lambda>ch. 0)\<rparr>"

text \<open>Three channels valid over [10, 20): channel 1 dead (code 1), the others good (code 4).\<close>

definition folder1 :: DBFolder where
  "folder1 = \<lparr>cached_begin = 10, cached_end = 20, channel_list = [0, 1, 2],
               status_column = (\<lambda>ch. if ch = 1 then 1 else 4)\<rparr>"


definition default_provider :: SIOVChannelStatusProvider where
  "default_provider = construct False False [0, 1, 2] kUNKNOWN folder0"

text \<open>A database-backed provider after its first refresh at time 15.\<close>

definition db_provider :: SIOVChannelStatusProvider where
  "db_provider = fst (snd (Update (UpdateFolder (\<lambda>t. Some folder1)) 15
                    (construct True False [0, 1, 2] kUNKNOWN folder0)))"

text \<open>The same provider after channel 0 was found noisy in the event.\<close>

definition noisy_provider :: SIOVChannelStatusProvider where
  "noisy_provider = AddNoisyChannel 0 db_provider"

text \<open>
  131068 samples of four values; the value 1 occurs 32768 times, so its 16-bit count
  wraps around to -32768.
\<close>

definition wrapped_samples :: "short list" where
  "wrapped_samples =
     replicate 32766 (- 2) @ replicate 32767 0 @ replicate 32768 1 @ replicate 32767 2"

text \<open>A digit without samples, and a digit with ten samples on the next channel.\<close>

definition empty_digit :: RawDigit where
  "empty_digit = \<lparr>Channel = 0, Samples = 0, ADCs = []\<rparr>"

definition full_digit :: RawDigit where
  "full_digit = \<lparr>Channel = 1, Samples = 10, ADCs = [10, 10, 10, 10, 11, 11, 9, 9, 9, 12]\<rparr>"

section \<open>The status provider: lookup, update and the overlay\<close>

subsection \<open>The example states, evaluated\<close>

lemma db_provider_eq:
  "db_provider =
     \<lparr>fDataSource = Database,
      fData = \<lparr>rows = [0 \<mapsto> \<lparr>fChannel = 0, fStatus = kGOOD\<rparr>, 1 \<mapsto> \<lparr>fChannel = 1, fStatus = kDEAD\<rparr>,
                       2 \<mapsto> \<lparr>fChannel = 2, fStatus = kGOOD\<rparr>], iov_begin = 10, iov_end = 20\<rparr>,
      fNewNoisy = empty_Snapshot,
      fDefault = \<lparr>fChannel = 0, fStatus = kUNKNOWN\<rparr>,
      fFolder = folder1\<rparr>"
  by (simp add: db_provider_def Update_def UpdateFolder_def construct_def data_source_def
      covers_def folder0_def folder1_def Clear_def empty_Snapshot_def refresh_rows_def
      SetIoV_def AddOrReplaceRow_def decode_status_def)

lemma noisy_provider_eq:
  "noisy_provider =
     \<lparr>fDataSource = Database,
      fData = \<lparr>rows = [0 \<mapsto> \<lparr>fChannel = 0, fStatus = kGOOD\<rparr>, 1 \<mapsto> \<lparr>fChannel = 1, fStatus = kDEAD\<rparr>,
                       2 \<mapsto> \<lparr>fChannel = 2, fStatus = kGOOD\<rparr>], iov_begin = 10, iov_end = 20\<rparr>,
      fNewNoisy = \<lparr>rows = [0 \<mapsto> \<lparr>fChannel = 0, fStatus = kNOISY\<rparr>], iov_begin = 0, iov_end = 0\<rparr>,
      fDefault = \<lparr>fChannel = 0, fStatus = kUNKNOWN\<rparr>,
      fFolder = folder1\<rparr>"
  by (simp add: noisy_provider_def db_provider_eq AddNoisyChannel_def rawToDBChannel_def
      IsBad_def IsPresent_def persistent_status_def AddOrReplaceRow_def empty_Snapshot_def)

lemma default_provider_eq:
  "default_provider =
     \<lparr>fDataSource = Default,
      fData = \<lparr>rows = [0 \<mapsto> \<lparr>fChannel = 0, fStatus = kGOOD\<rparr>, 1 \<mapsto> \<lparr>fChannel = 1, fStatus = kGOOD\<rparr>,
                       2 \<mapsto> \<lparr>fChannel = 2, fStatus = kGOOD\<rparr>], iov_begin = 0, iov_end = 0\<rparr>,
      fNewNoisy = empty_Snapshot,
      fDefault = \<lparr>fChannel = 0, fStatus = kUNKNOWN\<rparr>,
      fFolder = folder0\<rparr>"
  by (simp add: default_provider_def construct_def data_source_def empty_Snapshot_def
      AddOrReplaceRow_def)

lemma reachable_noisy_provider: "reachable noisy_provider"
  unfolding noisy_provider_def db_provider_def by (intro reachable.intros)

subsection \<open>GetChannelStatus\<close>

text \<open>
  Claim C1, as the code has it: the lookup returns the overlay's record when the overlay
  holds one for the channel, otherwise the persistent table's record; when neither
  table holds one, the IOVDataError of the persistent table's GetRow leaves the
  function (the handler covers the overlay's GetRow only), and no kUNKNOWN record is
  made up. In particular an overlay record wins whatever the persistent table says.
\<close>

theorem GetChannelStatus_overlay_then_persistent:
  "GetChannelStatus p ch =
     (case rows (fNewNoisy p) ch of
        Some cs \<Rightarrow> Inr cs
      | None \<Rightarrow> (case rows (fData p) ch of Some cs \<Rightarrow> Inr cs | None \<Rightarrow> Inl IOVDataError)) \<and>
   (rows (fNewNoisy p) ch = Some cs \<longrightarrow> GetChannelStatus p ch = Inr cs)"
  by (simp add: GetChannelStatus_def GetRow_def rawToDBChannel_def split: option.splits error.splits)

text \<open>
  Witness for C1: channel 0 is kGOOD in the persistent table and kNOISY in the overlay;
  the lookup answers kNOISY.
\<close>

theorem GetChannelStatus_overlay_then_persistent_witness:
  "rows (fNewNoisy noisy_provider) 0 = Some \<lparr>fChannel = 0, fStatus = kNOISY\<rparr> \<and>
   persistent_status noisy_provider 0 = kGOOD \<and>
   GetChannelStatus noisy_provider 0 = Inr \<lparr>fChannel = 0, fStatus = kNOISY\<rparr>"
proof -
  have r: "rows (fNewNoisy noisy_provider) 0 = Some \<lparr>fChannel = 0, fStatus = kNOISY\<rparr>"
    by (simp add: noisy_provider_eq)
  have g: "persistent_status noisy_provider 0 = kGOOD"
    by (simp add: noisy_provider_eq persistent_status_def)
  from GetChannelStatus_overlay_then_persistent
    [of noisy_provider 0 "\<lparr>fChannel = 0, fStatus = kNOISY\<rparr>"] r g
  show ?thesis by blast
qed

text \<open>
  Counterexample to C1 as stated: channel 7 has a record in neither table of the
  database-backed provider; the lookup raises IOVDataError and does not return a
  record of status kUNKNOWN.
\<close>

theorem GetChannelStatus_absent_channel_raises:
  "rows (fNewNoisy db_provider) 7 = None \<and> rows (fData db_provider) 7 = None \<and>
   GetChannelStatus db_provider 7 = Inl IOVDataError \<and>
   GetChannelStatus db_provider 7 \<noteq> Inr \<lparr>fChannel = 7, fStatus = kUNKNOWN\<rparr>"
  by (simp add: db_provider_eq GetChannelStatus_def GetRow_def rawToDBChannel_def empty_Snapshot_def)

subsection \<open>Update\<close>




text \<open>
  Claim C6: every Update leaves an empty overlay, whatever the mode and whatever
  UpdateFolder answers; and whenever the data source is not the database or UpdateFolder
  reports no refresh, Update returns false and the persistent table, rows and validity
  interval, is the one from before the call. With UpdateFolder as the spec describes it
  these cases are the default and file modes, a covered timestamp and a failed fetch.
\<close>

theorem Update_clears_overlay_keeps_table:
  "rows (fNewNoisy (fst (snd (Update uf ts p)))) = Map.empty \<and>
   (fDataSource p \<noteq> Database \<or> \<not> fst (uf ts (fFolder p)) \<longrightarrow>
      \<not> fst (Update uf ts p) \<and> fData (fst (snd (Update uf ts p))) = fData p) \<and>
   (fDataSource p \<noteq> Database \<or> covers (fFolder p) ts \<or> fetch ts = None \<longrightarrow>
      \<not> fst (Update (UpdateFolder fetch) ts p) \<and>
      fData (fst (snd (Update (UpdateFolder fetch) ts p))) = fData p)"
  by (auto simp: Update_def UpdateFolder_def Clear_def Let_def split: prod.splits option.splits)

text \<open>
  Witness for C6: a cache hit at time 15 and a failed fetch at time 25, both on the
  provider whose overlay holds channel 0; the overlay is emptied, the table is kept and
  the result is false.
\<close>

theorem Update_clears_overlay_keeps_table_witness:
  "rows (fNewNoisy noisy_provider) 0 \<noteq> None \<and>
   covers (fFolder noisy_provider) 15 \<and>
   rows (fNewNoisy (fst (snd (Update (UpdateFolder (\<lambda>t. Some folder0)) 15 noisy_provider)))) = Map.empty \<and>
   \<not> fst (Update (UpdateFolder (\<lambda>t. Some folder0)) 15 noisy_provider) \<and>
   fData (fst (snd (Update (UpdateFolder (\<lambda>t. Some folder0)) 15 noisy_provider))) = fData noisy_provider \<and>
   \<not> covers (fFolder noisy_provider) 25 \<and>
   \<not> fst (Update (UpdateFolder (\<lambda>t. None)) 25 noisy_provider) \<and>
   fData (fst (snd (Update (UpdateFolder (\<lambda>t. None)) 25 noisy_provider))) = fData noisy_provider"
proof -
  have c: "covers (fFolder noisy_provider) 15" "\<not> covers (fFolder noisy_provider) 25"
    by (simp_all add: noisy_provider_eq covers_def folder1_def)
  have r: "rows (fNewNoisy noisy_provider) 0 \<noteq> None" by (simp add: noisy_provider_eq)
  from Update_clears_overlay_keeps_table
         [of "UpdateFolder (\<lambda>t. Some folder0)" 15 noisy_provider "\<lambda>t. Some folder0"]
       Update_clears_overlay_keeps_table
         [of "UpdateFolder (\<lambda>t. None)" 25 noisy_provider "\<lambda>t. None"] c r
  show ?thesis by simp
qed

subsection \<open>AddNoisyChannel and the overlay invariant\<close>

lemma overlay_inv_construct: "overlay_inv (construct UseDB UseFile wire_channels init_status folder)"
  by (simp add: overlay_inv_def construct_def Let_def empty_Snapshot_def)

lemma overlay_inv_Update: "overlay_inv (fst (snd (Update uf ts p)))"
  by (auto simp: overlay_inv_def Update_def Let_def Clear_def split: prod.splits)

lemma overlay_inv_AddNoisy: "overlay_inv p \<Longrightarrow> overlay_inv (AddNoisyChannel ch p)"
  by (auto simp: overlay_inv_def AddNoisyChannel_def Let_def AddOrReplaceRow_def
      IsPresent_def IsBad_def persistent_status_def rawToDBChannel_def split: if_splits)

text \<open>
  The persistent table changes only in Update, which empties the overlay first; so a
  record of the overlay was written against the persistent table of the current state.
\<close>

lemma reachable_overlay_inv: "reachable p \<Longrightarrow> overlay_inv p"
  by (induction rule: reachable.induct)
     (simp_all add: overlay_inv_construct overlay_inv_Update overlay_inv_AddNoisy)

text \<open>
  The search of an event only calls AddNoisyChannel, and PreProcessEvent only Update and
  the search: both stay within the reachable states.
\<close>

lemma reachable_analyze_digits:
  "reachable p \<Longrightarrow> analyze_digits ftmf fRmsCut Uncompress n ds p = Some p' \<Longrightarrow> reachable p'"
proof (induction ds arbitrary: p n)
  case Nil
  then show ?case by simp
next
  case (Cons d ds)
  show ?case
  proof (cases "IsBad p (Channel d) \<or> \<not> IsPresent p (Channel d)")
    case True
    with Cons.prems(2) have "analyze_digits ftmf fRmsCut Uncompress n ds p = Some p'" by simp
    from Cons.IH [OF Cons.prems(1) this] show ?thesis .
  next
    case False
    define k where "k = min n (Samples d)"
    from Cons.prems(2) False obtain st where
      st: "analyze_channel ftmf (Samples d) (Uncompress d k) = Some st"
      and rest: "analyze_digits ftmf fRmsCut Uncompress k ds
              (if dge (rmsVal st) (fRmsCut (Channel d)) then AddNoisyChannel (Channel d) p else p)
            = Some p'"
      by (auto simp: Let_def k_def split: option.splits)
    have "reachable (if dge (rmsVal st) (fRmsCut (Channel d)) then AddNoisyChannel (Channel d) p else p)"
      using Cons.prems(1) by (simp add: reachable.r_AddNoisy)
    from Cons.IH [OF this rest] show ?thesis .
  qed
qed

lemma reachable_PreProcessEvent:
  "reachable p \<Longrightarrow>
     PreProcessEvent uf flag ftmf fRmsCut Uncompress n ts digits p = Some p' \<Longrightarrow> reachable p'"
  by (auto simp: PreProcessEvent_def FindNoisyChannels_def Let_def
      intro: reachable.r_Update reachable_analyze_digits split: if_splits option.splits)

text \<open>
  Claim C7: in every reachable state each overlay record has status kNOISY and belongs to
  a channel whose persistent-table status is neither kDISCONNECTED nor kDEAD nor
  kLOWNOISE; AddNoisyChannel on a bad or absent channel returns the provider unchanged,
  and on any other channel it files a kNOISY record under that channel.
\<close>

theorem overlay_only_Noisy_for_eligible:
  assumes "reachable p"
  shows "(\<forall>ch cs. rows (fNewNoisy p) ch = Some cs \<longrightarrow>
            fStatus cs = kNOISY \<and> persistent_status p ch \<noteq> kDISCONNECTED \<and>
            persistent_status p ch \<noteq> kDEAD \<and> persistent_status p ch \<noteq> kLOWNOISE) \<and>
         (\<forall>ch. IsBad p (rawToDBChannel ch) \<or> \<not> IsPresent p (rawToDBChannel ch) \<longrightarrow>
            AddNoisyChannel ch p = p) \<and>
         (\<forall>ch. \<not> IsBad p (rawToDBChannel ch) \<and> IsPresent p (rawToDBChannel ch) \<longrightarrow>
            rows (fNewNoisy (AddNoisyChannel ch p)) =
              (rows (fNewNoisy p))(rawToDBChannel ch \<mapsto> \<lparr>fChannel = rawToDBChannel ch, fStatus = kNOISY\<rparr>))"
  using reachable_overlay_inv [OF assms]
  by (auto simp: overlay_inv_def IsPresent_def IsBad_def AddNoisyChannel_def Let_def AddOrReplaceRow_def)

text \<open>
  Witness for C7: after a refresh and the noisy verdict on channel 0 the overlay holds
  that record; the dead channel 1 is refused and the good channel 2 is accepted.
\<close>

theorem overlay_only_Noisy_for_eligible_witness:
  "reachable noisy_provider \<and>
   rows (fNewNoisy noisy_provider) 0 = Some \<lparr>fChannel = 0, fStatus = kNOISY\<rparr> \<and>
   persistent_status noisy_provider 0 = kGOOD \<and>
   IsBad noisy_provider (rawToDBChannel 1) \<and>
   AddNoisyChannel 1 noisy_provider = noisy_provider \<and>
   \<not> IsBad noisy_provider (rawToDBChannel 2) \<and> IsPresent noisy_provider (rawToDBChannel 2) \<and>
   rows (fNewNoisy (AddNoisyChannel 2 noisy_provider)) 2 = Some \<lparr>fChannel = 2, fStatus = kNOISY\<rparr>"
proof -
  note inst = overlay_only_Noisy_for_eligible [OF reachable_noisy_provider]
  have bad1: "IsBad noisy_provider (rawToDBChannel 1)"
    by (simp add: noisy_provider_eq IsBad_def persistent_status_def rawToDBChannel_def)
  have ok2: "\<not> IsBad noisy_provider (rawToDBChannel 2) \<and> IsPresent noisy_provider (rawToDBChannel 2)"
    by (simp add: noisy_provider_eq IsBad_def IsPresent_def persistent_status_def rawToDBChannel_def)
  have row0: "rows (fNewNoisy noisy_provider) 0 = Some \<lparr>fChannel = 0, fStatus = kNOISY\<rparr>"
    by (simp add: noisy_provider_eq)
  have st0: "persistent_status noisy_provider 0 = kGOOD"
    by (simp add: noisy_provider_eq persistent_status_def)
  from inst bad1 have noop: "AddNoisyChannel 1 noisy_provider = noisy_provider" by blast
  from inst ok2 have "rows (fNewNoisy (AddNoisyChannel 2 noisy_provider)) =
      (rows (fNewNoisy noisy_provider))(rawToDBChannel 2 \<mapsto> \<lparr>fChannel = rawToDBChannel 2, fStatus = kNOISY\<rparr>)"
    by blast
  then have row2: "rows (fNewNoisy (AddNoisyChannel 2 noisy_provider)) 2 = Some \<lparr>fChannel = 2, fStatus = kNOISY\<rparr>"
    by (simp add: rawToDBChannel_def)
  show ?thesis using reachable_noisy_provider row0 st0 bad1 noop ok2 row2 by blast
qed

subsection \<open>GetChannelsWithStatus\<close>













section \<open>The classifier: histogram, mode and target\<close>

subsection \<open>The histogram counts occurrences\<close>

lemma keys_increment: "fst ` set (increment v m) = insert v (fst ` set m)"
proof (induction m)
  case Nil
  then show ?case by simp
next
  case (Cons e m)
  obtain k c where e: "e = (k, c)" by (cases e)
  show ?case using Cons.IH by (simp add: e insert_commute)
qed

lemma sint_neq: "(v :: short) \<noteq> k \<Longrightarrow> sint v \<noteq> sint k"
  by (auto simp: signed_word_eqI)

lemma key_sorted_increment: "key_sorted m \<Longrightarrow> key_sorted (increment v m)"
proof (induction m)
  case Nil
  then show ?case by (simp add: key_sorted_def)
next
  case (Cons e m)
  obtain k c where e: "e = (k, c)" by (cases e)
  from Cons.prems have tl: "key_sorted m" and hd: "\<forall>x \<in> set m. sint k < sint (fst x)"
    by (auto simp: key_sorted_def e)
  show ?case
  proof (cases "v = k")
    case True
    then show ?thesis using Cons.prems by (auto simp: key_sorted_def e)
  next
    case False
    show ?thesis
    proof (cases "sint v < sint k")
      case True
      then show ?thesis using Cons.prems False by (fastforce simp: key_sorted_def e)
    next
      case nlt: False
      with False have kv: "sint k < sint v" using sint_neq [of v k] by linarith
      have "\<forall>x \<in> set (increment v m). sint k < sint (fst x)"
      proof
        fix x assume "x \<in> set (increment v m)"
        then have "fst x \<in> insert v (fst ` set m)" using keys_increment [of v m] by blast
        then show "sint k < sint (fst x)" using kv hd by auto
      qed
      then show ?thesis using False nlt Cons.IH [OF tl] by (simp add: key_sorted_def e)
    qed
  qed
qed

lemma key_sorted_fold: "key_sorted m \<Longrightarrow> key_sorted (fold increment xs m)"
  by (induction xs arbitrary: m) (simp_all add: key_sorted_increment)

lemma key_sorted_populate: "key_sorted (populate rawadc)"
  unfolding populate_def by (rule key_sorted_fold) (simp add: key_sorted_def)

lemma count_at_notin: "k \<notin> fst ` set m \<Longrightarrow> count_at m k = 0"
  by (induction m) auto

lemma count_at_increment:
  "key_sorted m \<Longrightarrow>
     count_at (increment v m) k = (if k = v then count_at m k + 1 else count_at m k)"
proof (induction m)
  case Nil
  then show ?case by simp
next
  case (Cons e m)
  obtain k' c where e: "e = (k', c)" by (cases e)
  from Cons.prems have tl: "key_sorted m" and hd: "\<forall>x \<in> set m. sint k' < sint (fst x)"
    by (auto simp: key_sorted_def e)
  show ?case
  proof (cases "v = k'")
    case True
    then show ?thesis by (simp add: e)
  next
    case False
    show ?thesis
    proof (cases "sint v < sint k'")
      case True
      then have "v \<notin> fst ` set m" using hd by fastforce
      then have "count_at m v = 0" by (rule count_at_notin)
      then show ?thesis using True False by (simp add: e)
    next
      case nlt: False
      then show ?thesis using False Cons.IH [OF tl] by (auto simp: e)
    qed
  qed
qed

lemma count_at_fold:
  "key_sorted m \<Longrightarrow>
     count_at (fold increment xs m) k = count_at m k + of_nat (count_list xs k)"
proof (induction xs arbitrary: m)
  case Nil
  then show ?case by simp
next
  case (Cons x xs)
  have "count_at (fold increment xs (increment x m)) k =
          count_at (increment x m) k + of_nat (count_list xs k)"
    by (rule Cons.IH) (rule key_sorted_increment [OF Cons.prems])
  then show ?case using Cons.prems by (simp add: count_at_increment)
qed

text \<open>The count of a value is the number of its occurrences, modulo 2^16.\<close>

lemma count_at_populate: "count_at (populate rawadc) k = of_nat (count_list rawadc k)"
  unfolding populate_def using count_at_fold [of "[]" rawadc k] by (simp add: key_sorted_def)

lemma sint_small: "n < 32768 \<Longrightarrow> sint (of_nat n :: short) = int n"
proof -
  assume "n < 32768"
  then have "signed_take_bit 15 (int n) = int n"
    by (intro signed_take_bit_int_eq_self) simp_all
  then show ?thesis by (simp add: signed_of_nat)
qed

lemma no_wrapped_count_populate:
  "length rawadc < 32768 \<Longrightarrow> no_wrapped_count (populate rawadc)"
  unfolding no_wrapped_count_def
proof
  fix k assume "length rawadc < 32768"
  then have "count_list rawadc k < 32768" using count_le_length [of rawadc k] by linarith
  then show "0 \<le> sint (count_at (populate rawadc) k)"
    by (simp add: count_at_populate sint_small)
qed

subsection \<open>Histograms of constant runs\<close>

lemma increment_funpow_head:
  "(increment v ^^ n) ((v, c) # m) = (v, c + of_nat n) # m"
  by (induction n arbitrary: c) (simp_all add: funpow_swap1)

lemma increment_funpow_Nil:
  "(increment v ^^ Suc n) [] = [(v, 1 + of_nat n)]"
  by (simp add: funpow_swap1 increment_funpow_head)

lemma increment_funpow_Nil_pos:
  "0 < n \<Longrightarrow> (increment v ^^ n) [] = [(v, of_nat n)]"
  using increment_funpow_Nil [where v = v and n = "n - 1"] by (cases n) simp_all

lemma increment_funpow_skip:
  "sint k < sint v \<Longrightarrow> (increment v ^^ n) ((k, c) # m) = (k, c) # (increment v ^^ n) m"
  by (induction n arbitrary: m) auto

lemma populate_replicate: "populate (replicate (Suc n) v) = [(v, 1 + of_nat n)]"
  unfolding populate_def fold_replicate by (simp only: increment_funpow_Nil o_apply)

lemma populate_65536: "populate (replicate 65536 5) = [(5, 0)]"
proof -
  have "populate (replicate (Suc 65535) 5) = [(5, 1 + of_nat 65535)]"
    by (rule populate_replicate)
  then show ?thesis by simp
qed

lemma populate_32768: "populate (replicate 32768 5) = [(5, 32768)]"
proof -
  have "populate (replicate (Suc 32767) 5) = [(5, 1 + of_nat 32767)]"
    by (rule populate_replicate)
  then show ?thesis by simp
qed

lemma populate_wrapped_samples:
  "populate wrapped_samples = [(- 2, 32766), (0, 32767), (1, - 32768), (2, 32767)]"
  by (simp add: wrapped_samples_def populate_def increment_funpow_Nil_pos
      increment_funpow_skip)

subsection \<open>The most populated bin\<close>

lemma max_step_nonneg: "0 \<le> sint (snd acc) \<Longrightarrow> 0 \<le> sint (snd (fold max_step m acc))"
  by (induction m arbitrary: acc) (auto simp: max_step_def)

lemma find_max_bin_nonneg: "0 \<le> sint (snd (find_max_bin m))"
  unfolding find_max_bin_def by (rule max_step_nonneg) simp

text \<open>
  The scan over a map in key order: the result has the greatest count among the start
  value and the entries, and when it is an entry it is the first one with that count.
\<close>

lemma fold_max_step:
  assumes "key_sorted m"
  shows "sint (snd acc) \<le> sint (snd (fold max_step m acc)) \<and>
         (\<forall>e \<in> set m. sint (snd e) \<le> sint (snd (fold max_step m acc))) \<and>
         (fold max_step m acc = acc \<or>
            fold max_step m acc \<in> set m \<and> sint (snd acc) < sint (snd (fold max_step m acc)) \<and>
            (\<forall>e \<in> set m. snd e = snd (fold max_step m acc) \<longrightarrow>
                 sint (fst (fold max_step m acc)) \<le> sint (fst e)))"
  using assms
proof (induction m arbitrary: acc)
  case Nil
  then show ?case by simp
next
  case (Cons e m)
  from Cons.prems have tl: "key_sorted m" and hd: "\<forall>x \<in> set m. sint (fst e) < sint (fst x)"
    by (auto simp: key_sorted_def)
  define acc' where "acc' = max_step e acc"
  define r where "r = fold max_step m acc'"
  have r: "fold max_step (e # m) acc = r" by (simp add: r_def acc'_def)
  note IH = Cons.IH [OF tl, of acc', folded r_def]
  have acc': "sint (snd acc) \<le> sint (snd acc')" "sint (snd e) \<le> sint (snd acc')"
    "acc' = acc \<or> acc' = e \<and> sint (snd acc) < sint (snd e)"
    by (auto simp: acc'_def max_step_def)
  have 1: "sint (snd acc) \<le> sint (snd r)" using IH acc' by linarith
  have 2: "\<forall>x \<in> set (e # m). sint (snd x) \<le> sint (snd r)" using IH acc' by auto
  have 3: "r = acc \<or> r \<in> set (e # m) \<and> sint (snd acc) < sint (snd r) \<and>
            (\<forall>x \<in> set (e # m). snd x = snd r \<longrightarrow> sint (fst r) \<le> sint (fst x))"
  proof (cases "r = acc'")
    case True
    from acc'(3) show ?thesis
    proof
      assume "acc' = acc" then show ?thesis using True by simp
    next
      assume "acc' = e \<and> sint (snd acc) < sint (snd e)"
      then show ?thesis using True hd by (auto simp: less_imp_le)
    qed
  next
    case False
    with IH have in_m: "r \<in> set m" and gt: "sint (snd acc') < sint (snd r)"
      and least: "\<forall>x \<in> set m. snd x = snd r \<longrightarrow> sint (fst r) \<le> sint (fst x)" by auto
    have "snd e \<noteq> snd r" using gt acc'(2) by auto
    then show ?thesis using in_m gt least acc'(1) by auto
  qed
  show ?case unfolding r using 1 2 3 by blast
qed

lemma find_max_bin_no_positive:
  "\<forall>e \<in> set m. sint (snd e) \<le> 0 \<Longrightarrow> find_max_bin m = (- 1, 0)"
proof -
  assume a: "\<forall>e \<in> set m. sint (snd e) \<le> 0"
  have "fold max_step m acc = acc" if "sint (snd acc) = 0" for acc
    using a that by (induction m arbitrary: acc) (auto simp: max_step_def)
  then show ?thesis by (simp add: find_max_bin_def)
qed

text \<open>
  Claim C8, as the code has it: the scan runs in ascending key order and replaces the
  running mode only on a strictly greater count. So for the histogram of any sample
  sequence with at least one positive count the selected bin is an entry of the
  histogram, no entry has a greater count, and every entry with the same count has a key
  at least as large. For a histogram with no positive count (no samples, or counts that
  wrapped around) the selection keeps its initial value: bin -1 with count 0.
\<close>

theorem find_max_bin_least_mode:
  "((\<exists>e \<in> set (populate rawadc). 0 < sint (snd e)) \<longrightarrow>
      find_max_bin (populate rawadc) \<in> set (populate rawadc) \<and>
      (\<forall>e \<in> set (populate rawadc).
         sint (snd e) \<le> sint (snd (find_max_bin (populate rawadc))) \<and>
         (snd e = snd (find_max_bin (populate rawadc)) \<longrightarrow>
            sint (fst (find_max_bin (populate rawadc))) \<le> sint (fst e)))) \<and>
   ((\<forall>e \<in> set (populate rawadc). sint (snd e) \<le> 0) \<longrightarrow>
      find_max_bin (populate rawadc) = (- 1, 0))"
proof (intro conjI impI)
  let ?m = "populate rawadc"
  assume pos: "\<exists>e \<in> set ?m. 0 < sint (snd e)"
  note f = fold_max_step [OF key_sorted_populate, of "(- 1, 0)" rawadc, folded find_max_bin_def]
  from pos obtain e where e: "e \<in> set ?m" "0 < sint (snd e)" by blast
  with f have "0 < sint (snd (find_max_bin ?m))" by fastforce
  then have ne: "find_max_bin ?m \<noteq> (- 1, 0)" by auto
  from f ne show "find_max_bin ?m \<in> set ?m" by auto
  from f ne show "\<forall>e \<in> set ?m. sint (snd e) \<le> sint (snd (find_max_bin ?m)) \<and>
         (snd e = snd (find_max_bin ?m) \<longrightarrow> sint (fst (find_max_bin ?m)) \<le> sint (fst e))"
    by auto
next
  assume "\<forall>e \<in> set (populate rawadc). sint (snd e) \<le> 0"
  then show "find_max_bin (populate rawadc) = (- 1, 0)" by (rule find_max_bin_no_positive)
qed

text \<open>
  Witness for C8: the counts 10: 3, 12: 3, 11: 2 of the specification's example; the
  mode is 10.
\<close>

theorem find_max_bin_least_mode_witness:
  "(\<exists>e \<in> set (populate [10, 10, 10, 12, 12, 12, 11, 11]). 0 < sint (snd e)) \<and>
   populate [10, 10, 10, 12, 12, 12, 11, 11] = [(10, 3), (11, 2), (12, 3)] \<and>
   find_max_bin (populate [10, 10, 10, 12, 12, 12, 11, 11]) = (10, 3) \<and>
   find_max_bin (populate [10, 10, 10, 12, 12, 12, 11, 11])
     \<in> set (populate [10, 10, 10, 12, 12, 12, 11, 11])"
proof -
  have p: "populate [10, 10, 10, 12, 12, 12, 11, 11] = [(10, 3), (11, 2), (12, 3)]"
    by (simp add: populate_def)
  have h: "\<exists>e \<in> set (populate [10, 10, 10, 12, 12, 12, 11, 11]). 0 < sint (snd e)"
    by (simp add: p)
  have v: "find_max_bin (populate [10, 10, 10, 12, 12, 12, 11, 11]) = (10, 3)"
    by (simp add: p find_max_bin_def max_step_def)
  from find_max_bin_least_mode [of "[10, 10, 10, 12, 12, 12, 11, 11]"] h p v
  show ?thesis by blast
qed

text \<open>
  Counterexample to C8 as stated: for the empty histogram the selected mode is -1, which
  is no sample value; and for 32768 samples of value 5, whose count wraps around to
  -32768, the selected mode is -1 as well, although 5 is the only value.
\<close>

theorem find_max_bin_keeps_initial_value:
  "populate [] = [] \<and> find_max_bin (populate []) = (- 1, 0) \<and>
   populate (replicate 32768 5) = [(5, - 32768)] \<and>
   find_max_bin (populate (replicate 32768 5)) = (- 1, 0)"
  by (simp add: populate_32768 find_max_bin_def max_step_def) (simp add: populate_def)

subsection \<open>Rounding to nearest\<close>

lemma pow2_powr: "pow2 z = 2 powr (of_int z)"
  by (simp add: pow2_def powr_real_of_int field_simps)

lemma pow2_pos [simp]: "0 < pow2 z"
  by (simp add: pow2_powr)

lemma pow2_nz [simp]: "pow2 z \<noteq> 0"
  by (simp add: pow2_def)

lemma pow2_nonneg [simp]: "0 \<le> pow2 z"
  by (simp add: pow2_def)

lemma pow2_add: "pow2 (a + b) = pow2 a * pow2 b"
  by (simp add: pow2_powr powr_add)

lemma pow2_nat: "pow2 (int n) = 2 ^ n"
  by (simp add: pow2_def)

lemma pow2_neg_nat: "pow2 (- int n) = 1 / 2 ^ n"
  by (simp add: pow2_powr powr_minus powr_realpow field_simps)

lemma pow2_mono: "a \<le> b \<Longrightarrow> pow2 a \<le> pow2 b"
  by (simp add: pow2_powr)

lemma pow2_less_iff: "pow2 a < pow2 b \<longleftrightarrow> a < b"
  by (simp add: pow2_powr)

lemma round_even_of_int [simp]: "round_even (of_int n) = n"
  by (simp add: round_even_def)

lemma round_even_le_ceiling: "round_even y \<le> \<lceil>y\<rceil>"
proof (cases "y = of_int \<lfloor>y\<rfloor>")
  case True
  then have "round_even y = \<lfloor>y\<rfloor>" by (simp add: round_even_def)
  then show ?thesis by (simp add: floor_le_ceiling)
next
  case False
  then have "\<lceil>y\<rceil> = \<lfloor>y\<rfloor> + 1" by (simp add: ceiling_altdef)
  then show ?thesis by (simp add: round_even_def)
qed

lemma round_even_ge_floor: "\<lfloor>y\<rfloor> \<le> round_even y"
  by (simp add: round_even_def)

lemma round_even_le_floor_Suc: "round_even y \<le> \<lfloor>y\<rfloor> + 1"
  by (simp add: round_even_def)

lemma floor_log2:
  assumes "x \<noteq> 0"
  shows "pow2 \<lfloor>log 2 \<bar>x\<bar>\<rfloor> \<le> \<bar>x\<bar>" "\<bar>x\<bar> < pow2 (\<lfloor>log 2 \<bar>x\<bar>\<rfloor> + 1)"
proof -
  have "0 < \<bar>x\<bar>" using assms by simp
  from floor_log_eq_powr_iff [OF this, of 2 "\<lfloor>log 2 \<bar>x\<bar>\<rfloor>"]
  show "pow2 \<lfloor>log 2 \<bar>x\<bar>\<rfloor> \<le> \<bar>x\<bar>" "\<bar>x\<bar> < pow2 (\<lfloor>log 2 \<bar>x\<bar>\<rfloor> + 1)"
    by (simp_all add: pow2_powr)
qed



text \<open>A value with a significand of p bits is not changed.\<close>

lemma rnd_exact_int:
  assumes "x = of_int M * pow2 z" "\<bar>M\<bar> < 2 ^ p"
  shows "rnd p x = x"
proof (cases "x = 0")
  case True
  then show ?thesis by (simp add: rnd_def)
next
  case False
  define e where "e = \<lfloor>log 2 \<bar>x\<bar>\<rfloor>"
  have M0: "M \<noteq> 0" using False assms(1) by auto
  have "pow2 e \<le> \<bar>x\<bar>" using floor_log2(1) [OF False] by (simp add: e_def)
  also have "\<bar>x\<bar> = of_int \<bar>M\<bar> * pow2 z"
  proof -
    have "\<bar>pow2 z\<bar> = pow2 z" using pow2_pos [of z] by linarith
    then show ?thesis by (simp add: assms(1) abs_mult)
  qed
  also have "\<dots> < 2 ^ p * pow2 z"
  proof -
    have "(of_int \<bar>M\<bar> :: real) < of_int (2 ^ p)" using assms(2) by (simp only: of_int_less_iff)
    then show ?thesis by simp
  qed
  also have "\<dots> = pow2 (int p + z)" by (simp add: pow2_add pow2_nat)
  finally have "e < int p + z" by (simp add: pow2_less_iff)
  then have nn: "0 \<le> z - (e - int p + 1)" by linarith
  define j where "j = nat (z - (e - int p + 1))"
  have j: "z = int j + (e - int p + 1)" using nn by (simp add: j_def)
  have "pow2 z = pow2 (int j) * pow2 (e - int p + 1)"
    by (subst j) (rule pow2_add)
  moreover have "pow2 (e - int p + 1) \<noteq> 0" using pow2_pos [of "e - int p + 1"] by linarith
  ultimately have xq: "x / pow2 (e - int p + 1) = of_int (M * 2 ^ j)"
    by (simp add: assms(1) pow2_nat)
  have "rnd p x = of_int (round_even (x / pow2 (e - int p + 1))) * pow2 (e - int p + 1)"
    using False by (simp add: rnd_def e_def)
  also have "\<dots> = x / pow2 (e - int p + 1) * pow2 (e - int p + 1)"
    by (simp only: xq round_even_of_int)
  also have "\<dots> = x" by simp
  finally show ?thesis .
qed

lemma rnd_exact:
  assumes "x * 2 ^ k \<in> \<int>" "\<bar>x\<bar> * 2 ^ k < 2 ^ p"
  shows "rnd p x = x"
proof -
  from assms(1) obtain M :: int where M: "x * 2 ^ k = of_int M" by (auto elim: Ints_cases)
  then have x: "x = of_int M * pow2 (- int k)" by (simp add: pow2_neg_nat field_simps)
  have "\<bar>of_int M :: real\<bar> < 2 ^ p" using assms(2) M by (simp add: abs_mult flip: M)
  then have "(of_int \<bar>M\<bar> :: real) < of_int (2 ^ p)" by simp
  then have "\<bar>M\<bar> < 2 ^ p" by (simp only: of_int_less_iff)
  from rnd_exact_int [OF x this] show ?thesis .
qed

lemma rnd_nonpos:
  assumes "x \<le> 0"
  shows "rnd p x \<le> 0"
proof (cases "x = 0")
  case True
  then show ?thesis by (simp add: rnd_def)
next
  case False
  define u where "u = pow2 (\<lfloor>log 2 \<bar>x\<bar>\<rfloor> - int p + 1)"
  have u: "0 < u" by (simp add: u_def)
  have "x / u \<le> 0" using assms u by (simp add: divide_nonpos_pos)
  then have "\<lceil>x / u\<rceil> \<le> 0" by (simp add: ceiling_le_iff)
  then have "round_even (x / u) \<le> 0" using round_even_le_ceiling [of "x / u"] by linarith
  then have "(of_int (round_even (x / u)) :: real) \<le> 0" by simp
  then have "of_int (round_even (x / u)) * u \<le> 0" using u by (simp add: mult_le_0_iff)
  then show ?thesis using False by (simp add: rnd_def u_def)
qed

text \<open>Rounding does not pass a bound that is itself representable.\<close>

lemma rnd_le:
  assumes "x \<le> b" "0 \<le> b" "b = of_int M * pow2 z" "\<bar>M\<bar> < 2 ^ p"
  shows "rnd p x \<le> b"
proof (cases "x \<le> 0")
  case True
  then show ?thesis using rnd_nonpos [of x p] assms(2) by linarith
next
  case False
  then have xpos: "0 < x" by simp
  then have x0: "x \<noteq> 0" by simp
  define e where "e = \<lfloor>log 2 \<bar>x\<bar>\<rfloor>"
  define u where "u = pow2 (e - int p + 1)"
  have u: "0 < u" by (simp add: u_def)
  have bpos: "0 < b" using xpos assms(1) by linarith
  have Mpos: "0 < M"
  proof (rule ccontr)
    assume "\<not> 0 < M"
    then have "(of_int M :: real) \<le> 0" by simp
    then have "of_int M * pow2 z \<le> 0" using pow2_pos [of z] by (simp add: mult_le_0_iff)
    then show False using bpos assms(3) by simp
  qed
  have "pow2 e \<le> \<bar>x\<bar>" using floor_log2(1) [OF x0] by (simp add: e_def)
  also have "\<bar>x\<bar> \<le> b" using xpos assms(1) by simp
  also have "b < 2 ^ p * pow2 z"
  proof -
    have "(of_int M :: real) < of_int (2 ^ p)" using assms(4) Mpos by (simp only: of_int_less_iff)
    then show ?thesis using pow2_pos [of z] by (simp add: assms(3))
  qed
  also have "\<dots> = pow2 (int p + z)" by (simp add: pow2_add pow2_nat)
  finally have "e < int p + z" by (simp add: pow2_less_iff)
  then have nn: "0 \<le> z - (e - int p + 1)" by linarith
  define j where "j = nat (z - (e - int p + 1))"
  have j: "z = int j + (e - int p + 1)" using nn by (simp add: j_def)
  have "pow2 z = pow2 (int j) * pow2 (e - int p + 1)"
    by (subst j) (rule pow2_add)
  then have bq: "b = of_int (M * 2 ^ j) * u"
    by (simp add: assms(3) pow2_nat u_def)
  have "x / u \<le> b / u" using assms(1) u by (simp add: divide_right_mono)
  also have "b / u = of_int (M * 2 ^ j)" using u by (simp add: bq)
  finally have "\<lceil>x / u\<rceil> \<le> M * 2 ^ j" by (simp only: ceiling_le_iff)
  then have "round_even (x / u) \<le> M * 2 ^ j" using round_even_le_ceiling [of "x / u"] by linarith
  then have "(of_int (round_even (x / u)) :: real) \<le> of_int (M * 2 ^ j)" by (simp only: of_int_le_iff)
  then have "of_int (round_even (x / u)) * u \<le> of_int (M * 2 ^ j) * u"
    using u by (simp only: mult_le_cancel_right_pos)
  then show ?thesis using x0 by (simp add: rnd_def e_def u_def bq)
qed

lemma rnd_le_nat:
  assumes "x \<le> real n" "n < 2 ^ p"
  shows "rnd p x \<le> real n"
proof -
  have "real n = of_int (int n) * pow2 0" by (simp add: pow2_def)
  moreover have "\<bar>int n\<bar> < 2 ^ p" using assms(2) by (simp flip: of_nat_less_iff)
  ultimately show ?thesis by (intro rnd_le [OF assms(1), where M = "int n" and z = 0]) simp_all
qed

lemma rnd_0 [simp]: "rnd p 0 = 0"
  by (simp add: rnd_def)

text \<open>
  A float that is at least 1/16 is a multiple of 2 ^ -27: its exponent is at least -4
  and its significand has 24 bits.
\<close>

lemma float_multiple:
  assumes "1 / 16 \<le> x"
  shows "rnd 24 x * 2 ^ 27 \<in> \<int>"
proof -
  have x0: "x \<noteq> 0" using assms by auto
  define e where "e = \<lfloor>log 2 \<bar>x\<bar>\<rfloor>"
  have "pow2 (- 4) \<le> \<bar>x\<bar>" using assms by (simp add: pow2_def)
  also have "\<bar>x\<bar> < pow2 (e + 1)" using floor_log2(2) [OF x0] by (simp add: e_def)
  finally have "- 4 < e + 1" by (simp add: pow2_less_iff)
  then have nn: "0 \<le> e + 4" by linarith
  define j where "j = nat (e + 4)"
  have "e - int 24 + 1 + int 27 = int j" using nn by (simp add: j_def)
  then have "pow2 (e - int 24 + 1) * pow2 (int 27) = pow2 (int j)"
    by (simp only: flip: pow2_add)
  then have "pow2 (e - int 24 + 1) * 2 ^ 27 = 2 ^ j"
    by (simp only: pow2_nat)
  then have "rnd 24 x * 2 ^ 27 = of_int (round_even (x / pow2 (e - int 24 + 1)) * 2 ^ j)"
    using x0 by (simp add: rnd_def e_def)
  then show ?thesis by (simp only: Ints_of_int)
qed

subsection \<open>The target count\<close>


lemma minNumBins_no_samples: "minNumBins f 0 = - 1"
  by (simp add: minNumBins_def to_int_def rnd_exact [where k = 3] rnd_exact [where k = 0])








section \<open>The classifier: the two expansion loops\<close>

subsection \<open>Leaving and not leaving a loop\<close>

lemma mean_loop_stop: "\<not> fst s < t \<Longrightarrow> mean_loop m b t s = Some s"
  by (subst mean_loop.simps) simp

lemma rms_loop_stop: "\<not> fst s < t \<Longrightarrow> rms_loop m b mu t s = Some s"
  by (subst rms_loop.simps) simp

lemma mean_step_all_zero:
  "\<forall>k. count_at m k = 0 \<Longrightarrow> fst (mean_step m b s) = fst s"
  by (cases s) (simp add: mean_step_def mean_add_def)

text \<open>
  When every bin is empty the count never moves, so a loop that is entered is never
  left: no approximation of the loop returns a value.
\<close>

lemma mean_loop_all_zero_aux:
  assumes "mean_loop m b t s = Some y"
  shows "(\<forall>k. count_at m k = 0) \<longrightarrow> fst s < t \<longrightarrow> False"
proof (rule mean_loop.raw_induct
    [where P = "\<lambda>m b t s y. (\<forall>k. count_at m k = 0) \<longrightarrow> fst s < t \<longrightarrow> False", OF _ assms])
  fix loop m b t s y
  assume IH: "\<And>m b t s y. loop m b t s = Some y \<Longrightarrow>
                (\<forall>k. count_at m k = 0) \<longrightarrow> fst s < t \<longrightarrow> False"
    and eq: "(if fst s < t then loop m b t (mean_step m b s) else Some s) = Some y"
  show "(\<forall>k. count_at m k = 0) \<longrightarrow> fst s < t \<longrightarrow> False"
  proof (intro impI)
    assume z: "\<forall>k. count_at m k = 0" and lt: "fst s < t"
    from eq lt have "loop m b t (mean_step m b s) = Some y" by simp
    moreover have "fst (mean_step m b s) < t"
      using z lt by (simp add: mean_step_all_zero)
    ultimately show False using IH z by blast
  qed
qed

lemma mean_loop_all_zero:
  "(\<forall>k. count_at m k = 0) \<Longrightarrow> fst s < t \<Longrightarrow> mean_loop m b t s = None"
  using mean_loop_all_zero_aux [of m b t s] by (cases "mean_loop m b t s") auto

lemma analyze_clipped_to_nothing: "analyze_channel (1 / 4) 10 [] = None"
  by (simp add: analyze_channel_def populate_def minNumBins_def to_int_def rnd_exact [where k = 3] mean_pass_def
      find_max_bin_def mean_loop_all_zero)

lemma analyze_65536_equal_samples: "analyze_channel (1 / 4) 65536 (replicate 65536 5) = None"
  by (simp add: analyze_channel_def populate_65536 minNumBins_def to_int_def rnd_exact [where k = 3] mean_pass_def
      find_max_bin_def max_step_def mean_loop_all_zero)

lemma analyze_no_samples:
  "analyze_channel (1 / 4) 0 [] =
     Some \<lparr>truncMean = NaN, rmsVal = Fin 0, curBinCnt = 0, rmsBinCnt = 0,
           meanOffset = 1, rmsOffset = 1\<rparr>"
  by (simp add: analyze_channel_def populate_def minNumBins_def to_int_def rnd_exact [where k = 3] mean_pass_def
      rms_pass_def find_max_bin_def mean_loop_stop rms_loop_stop dsub_def)

lemma default_provider_eligible:
  "\<not> IsBad default_provider 0 \<and> IsPresent default_provider 0 \<and>
   \<not> IsBad default_provider 1 \<and> IsPresent default_provider 1"
  by (simp add: default_provider_eq IsBad_def IsPresent_def persistent_status_def)

lemma event_with_empty_digit_first:
  "FindNoisyChannels (1 / 4) (\<lambda>ch. Fin 5) (\<lambda>d n. take n (ADCs d)) 9600
     (Some [empty_digit, full_digit]) default_provider = None"
  using default_provider_eligible
  by (simp add: FindNoisyChannels_def empty_digit_def full_digit_def analyze_no_samples
      analyze_clipped_to_nothing)

text \<open>
  Claim C2 fails on the code. A digit of ten samples whose window was clipped to no
  sample at all (an earlier digit of the event had no samples, and maxTimeSamples is the
  minimum over the digits seen so far) has an empty histogram and, with the fraction
  1/4, the target int (0.75 * 10 - 1) = 6, which is computed from the digit's own
  length: the count stays 0 and the first loop never exits, for the single channel and
  for the event as a whole. The same happens without any clipping for 65536 equal
  samples, whose 16-bit count wraps around to 0. On a window that is not clipped and
  holds fewer than 32768 samples both loops do return (analyze_channel_returns below).
\<close>

theorem expansion_loop_never_exits:
  "minNumBins (1 / 4) 10 = 6 \<and>
   mean_pass (populate []) 6 = None \<and>
   analyze_channel (1 / 4) 10 [] = None \<and>
   FindNoisyChannels (1 / 4) (\<lambda>ch. Fin 5) (\<lambda>d n. take n (ADCs d)) 9600
     (Some [empty_digit, full_digit]) default_provider = None \<and>
   analyze_channel (1 / 4) 65536 (replicate 65536 5) = None"
proof -
  have "minNumBins (1 / 4) 10 = 6" by (simp add: minNumBins_def to_int_def rnd_exact [where k = 3])
  moreover have "mean_pass (populate []) 6 = None"
    by (simp add: populate_def mean_pass_def find_max_bin_def mean_loop_all_zero)
  ultimately show ?thesis
    using analyze_clipped_to_nothing event_with_empty_digit_first analyze_65536_equal_samples
    by blast
qed

subsection \<open>The two loops side by side\<close>

lemma test_agree:
  "no_wrapped_count m \<Longrightarrow> (count_at m k \<noteq> 0) = (0 < sint (count_at m k))"
proof -
  assume "no_wrapped_count m"
  then have "0 \<le> sint (count_at m k)" by (simp add: no_wrapped_count_def)
  moreover have "(count_at m k = 0) = (sint (count_at m k) = 0)"
    by (simp add: signed_eq_0_iff)
  ultimately show ?thesis by linarith
qed

lemma add_agree:
  "no_wrapped_count m \<Longrightarrow> fst (mean_add m bin (c, x)) = fst (rms_add m mu bin (c, y))"
  by (simp add: mean_add_def rms_add_def Let_def test_agree)

lemma step_agree:
  assumes "no_wrapped_count m" "cnt_off s = cnt_off s'"
  shows "cnt_off (mean_step m b s) = cnt_off (rms_step m b mu s')"
proof -
  obtain c x off where s: "s = (c, x, off)" by (cases s)
  obtain c' y off' where s': "s' = (c', y, off')" by (cases s')
  from assms(2) have [simp]: "c' = c" "off' = off" by (simp_all add: s s' cnt_off_def)
  obtain c1 x1 where l1: "mean_add m (lower_bin b off) (c, x) = (c1, x1)"
    by (cases "mean_add m (lower_bin b off) (c, x)")
  obtain c2 y1 where l2: "rms_add m mu (lower_bin b off) (c, y) = (c2, y1)"
    by (cases "rms_add m mu (lower_bin b off) (c, y)")
  have c12: "c2 = c1" using add_agree [OF assms(1), of "lower_bin b off" c x mu y] l1 l2 by simp
  have "fst (mean_add m (upper_bin b off) (c1, x1)) = fst (rms_add m mu (upper_bin b off) (c1, y1))"
    by (rule add_agree [OF assms(1)])
  then show ?thesis
    by (auto simp: s s' mean_step_def rms_step_def l1 l2 c12 cnt_off_def split: prod.splits)
qed

lemma mean_to_rms:
  assumes "mean_loop m b t s = Some r"
  shows "no_wrapped_count m \<longrightarrow>
         (\<forall>s'. cnt_off s' = cnt_off s \<longrightarrow>
            (\<exists>r'. rms_loop m b mu t s' = Some r' \<and> cnt_off r' = cnt_off r))"
proof (rule mean_loop.raw_induct
    [where P = "\<lambda>m b t s r. no_wrapped_count m \<longrightarrow>
         (\<forall>s'. cnt_off s' = cnt_off s \<longrightarrow>
            (\<exists>r'. rms_loop m b mu t s' = Some r' \<and> cnt_off r' = cnt_off r))", OF _ assms])
  fix loop m b t s r
  assume IH: "\<And>m b t s r. loop m b t s = Some r \<Longrightarrow> no_wrapped_count m \<longrightarrow>
         (\<forall>s'. cnt_off s' = cnt_off s \<longrightarrow>
            (\<exists>r'. rms_loop m b mu t s' = Some r' \<and> cnt_off r' = cnt_off r))"
    and eq: "(if fst s < t then loop m b t (mean_step m b s) else Some s) = Some r"
  show "no_wrapped_count m \<longrightarrow>
         (\<forall>s'. cnt_off s' = cnt_off s \<longrightarrow>
            (\<exists>r'. rms_loop m b mu t s' = Some r' \<and> cnt_off r' = cnt_off r))"
  proof (intro impI allI)
    fix s' assume nw: "no_wrapped_count m" and p: "cnt_off s' = cnt_off s"
    then have fs: "fst s' = fst s" by (simp add: cnt_off_def)
    show "\<exists>r'. rms_loop m b mu t s' = Some r' \<and> cnt_off r' = cnt_off r"
    proof (cases "fst s < t")
      case True
      with eq have "loop m b t (mean_step m b s) = Some r" by simp
      from IH [OF this] nw step_agree [OF nw p [symmetric], of b mu]
      obtain r' where "rms_loop m b mu t (rms_step m b mu s') = Some r'" "cnt_off r' = cnt_off r"
        by metis
      then show ?thesis using True fs by (subst rms_loop.simps) simp
    next
      case False
      with eq have "r = s" by simp
      then show ?thesis using False fs p by (subst rms_loop.simps) simp
    qed
  qed
qed

lemma rms_to_mean:
  assumes "rms_loop m b mu t s = Some r"
  shows "no_wrapped_count m \<longrightarrow>
         (\<forall>s'. cnt_off s' = cnt_off s \<longrightarrow>
            (\<exists>r'. mean_loop m b t s' = Some r' \<and> cnt_off r' = cnt_off r))"
proof (rule rms_loop.raw_induct
    [where P = "\<lambda>m b mu t s r. no_wrapped_count m \<longrightarrow>
         (\<forall>s'. cnt_off s' = cnt_off s \<longrightarrow>
            (\<exists>r'. mean_loop m b t s' = Some r' \<and> cnt_off r' = cnt_off r))", OF _ assms])
  fix loop m b mu t s r
  assume IH: "\<And>m b mu t s r. loop m b mu t s = Some r \<Longrightarrow> no_wrapped_count m \<longrightarrow>
         (\<forall>s'. cnt_off s' = cnt_off s \<longrightarrow>
            (\<exists>r'. mean_loop m b t s' = Some r' \<and> cnt_off r' = cnt_off r))"
    and eq: "(if fst s < t then loop m b mu t (rms_step m b mu s) else Some s) = Some r"
  show "no_wrapped_count m \<longrightarrow>
         (\<forall>s'. cnt_off s' = cnt_off s \<longrightarrow>
            (\<exists>r'. mean_loop m b t s' = Some r' \<and> cnt_off r' = cnt_off r))"
  proof (intro impI allI)
    fix s' assume nw: "no_wrapped_count m" and p: "cnt_off s' = cnt_off s"
    then have fs: "fst s' = fst s" by (simp add: cnt_off_def)
    show "\<exists>r'. mean_loop m b t s' = Some r' \<and> cnt_off r' = cnt_off r"
    proof (cases "fst s < t")
      case True
      with eq have "loop m b mu t (rms_step m b mu s) = Some r" by simp
      from IH [OF this] nw step_agree [OF nw p, of b mu]
      obtain r' where "mean_loop m b t (mean_step m b s') = Some r'" "cnt_off r' = cnt_off r"
        by metis
      then show ?thesis using True fs by (subst mean_loop.simps) simp
    next
      case False
      with eq have "r = s" by simp
      then show ?thesis using False fs p by (subst mean_loop.simps) simp
    qed
  qed
qed

text \<open>Either both loops return, with the same count and offset, or neither does.\<close>

lemma loops_agree:
  assumes "no_wrapped_count m" "cnt_off s = cnt_off s'"
  shows "map_option cnt_off (mean_loop m b t s) = map_option cnt_off (rms_loop m b mu t s')"
proof (cases "mean_loop m b t s")
  case None
  show ?thesis
  proof (cases "rms_loop m b mu t s'")
    case n: None
    with None show ?thesis by simp
  next
    case (Some r)
    from rms_to_mean [OF Some] assms have "\<exists>r'. mean_loop m b t s = Some r'" by metis
    with None show ?thesis by simp
  qed
next
  case (Some r)
  from mean_to_rms [OF Some, of mu] assms
  obtain r' where "rms_loop m b mu t s' = Some r'" "cnt_off r' = cnt_off r" by metis
  with Some show ?thesis by simp
qed

lemma find_max_wrapped: "find_max_bin (populate wrapped_samples) = (0, 32767)"
  by (simp add: populate_wrapped_samples find_max_bin_def max_step_def)

lemma minNumBins_wrapped: "minNumBins (5 / 8) (length wrapped_samples) = 49149"
  by (simp add: wrapped_samples_def minNumBins_def to_int_def rnd_exact [where k = 3])

lemma mean_pass_wrapped:
  "map_option cnt_off (mean_pass (populate wrapped_samples) 49149) = Some (65532, 3)"
  apply (simp add: mean_pass_def find_max_wrapped)
  apply (subst mean_loop.simps)
  apply (simp add: populate_wrapped_samples mean_step_def mean_add_def lower_bin_def upper_bin_def key_of_def)
  apply (subst mean_loop.simps)
  apply (simp add: populate_wrapped_samples mean_step_def mean_add_def lower_bin_def upper_bin_def key_of_def)
  apply (subst mean_loop.simps)
  apply (simp add: cnt_off_def)
  done

lemma rms_pass_wrapped:
  "map_option cnt_off (rms_pass (populate wrapped_samples) 49149 mu) = Some (98300, 3)"
  apply (simp add: rms_pass_def find_max_wrapped)
  apply (subst rms_loop.simps)
  apply (simp add: populate_wrapped_samples rms_step_def rms_add_def Let_def lower_bin_def upper_bin_def key_of_def)
  apply (subst rms_loop.simps)
  apply (simp add: populate_wrapped_samples rms_step_def rms_add_def Let_def lower_bin_def upper_bin_def key_of_def)
  apply (subst rms_loop.simps)
  apply (simp add: cnt_off_def)
  done

text \<open>
  The first loop adds a bin whose count is non-zero, the second a bin whose count is
  positive. For a histogram without a wrapped count, which is the histogram of every
  sequence of fewer than 32768 samples, the two tests agree on every bin, one iteration
  of either loop leads from equal counts and offsets to equal counts and offsets, and
  the two passes, started from the same bin with the same target and whatever mean,
  either both return with the same final count and the same final offset or both do not
  return.
\<close>

lemma passes_visit_same_bins:
  "(no_wrapped_count m \<longrightarrow>
      (\<forall>k. (count_at m k \<noteq> 0) = (0 < sint (count_at m k))) \<and>
      (\<forall>s s'. cnt_off s = cnt_off s' \<longrightarrow>
         cnt_off (mean_step m binMax s) = cnt_off (rms_step m binMax mu s')) \<and>
      map_option cnt_off (mean_pass m minBins) = map_option cnt_off (rms_pass m minBins mu)) \<and>
   (length rawadc < 32768 \<longrightarrow> no_wrapped_count (populate rawadc))"
proof (intro conjI impI allI)
  assume nw: "no_wrapped_count m"
  obtain b c where bc: "find_max_bin m = (b, c)" by (cases "find_max_bin m")
  show "map_option cnt_off (mean_pass m minBins) = map_option cnt_off (rms_pass m minBins mu)"
    unfolding mean_pass_def rms_pass_def bc Let_def prod.case
    by (rule loops_agree [OF nw]) (simp add: cnt_off_def)
  fix k show "(count_at m k \<noteq> 0) = (0 < sint (count_at m k))" by (rule test_agree [OF nw])
next
  fix s s' assume "no_wrapped_count m" "cnt_off s = cnt_off s'"
  then show "cnt_off (mean_step m binMax s) = cnt_off (rms_step m binMax mu s')"
    by (rule step_agree)
next
  assume "length rawadc < 32768"
  then show "no_wrapped_count (populate rawadc)" by (rule no_wrapped_count_populate)
qed

lemma analyze_wrapped_samples:
  "\<exists>st. analyze_channel (5 / 8) (length wrapped_samples) wrapped_samples = Some st \<and>
        curBinCnt st = 65532 \<and> rmsBinCnt st = 98300"
proof -
  obtain s1 o1 where m: "mean_pass (populate wrapped_samples) 49149 = Some (65532, s1, o1)"
    using mean_pass_wrapped by (auto simp: cnt_off_def)
  obtain s2 o2 where
    r: "rms_pass (populate wrapped_samples) 49149 (ddiv s1 (Fin 65532)) = Some (98300, s2, o2)"
    using rms_pass_wrapped [of "ddiv s1 (Fin 65532)"] by (auto simp: cnt_off_def)
  show ?thesis
    by (simp add: analyze_channel_def Let_def minNumBins_wrapped m r)
qed

text \<open>
  Claim C9 fails on the code. The first loop tests if (binAdcMap[..]), the second
  if (binAdcMap[..] > 0), and the counts are shorts. In the histogram of wrapped_samples
  the count of the value 1 has wrapped around to -32768. With the fraction 5/8 the
  target is 49149. At offset 1 the first pass adds the bin 1 (its count is non-zero),
  the second pass skips it (its count is not positive); both stop after offset 2, the
  first with the count 65532, the second with 98300, and these are the two counts by
  which the analysis of the channel divides. Where no count has wrapped the two passes
  do agree (passes_visit_same_bins above).
\<close>

theorem passes_differ_on_wrapped_count:
  "populate wrapped_samples = [(- 2, 32766), (0, 32767), (1, - 32768), (2, 32767)] \<and>
   minNumBins (5 / 8) (length wrapped_samples) = 49149 \<and>
   map_option cnt_off (mean_pass (populate wrapped_samples) 49149) = Some (65532, 3) \<and>
   map_option cnt_off (rms_pass (populate wrapped_samples) 49149 (Fin 0)) = Some (98300, 3) \<and>
   map_option curBinCnt (analyze_channel (5 / 8) (length wrapped_samples) wrapped_samples)
     = Some 65532 \<and>
   map_option rmsBinCnt (analyze_channel (5 / 8) (length wrapped_samples) wrapped_samples)
     = Some 98300"
  using populate_wrapped_samples minNumBins_wrapped mean_pass_wrapped rms_pass_wrapped [of "Fin 0"]
    analyze_wrapped_samples
  by auto

subsection \<open>The loops return on an unclipped window\<close>

lemma key_of_lower: "key_of (lower_bin b off) = b - off"
  by (simp add: key_of_def lower_bin_def)

lemma key_of_upper: "key_of (upper_bin b off) = b + off"
  by (simp add: key_of_def upper_bin_def)

lemma mean_add_fst:
  "fst (mean_add m bin acc) = fst acc + sint (count_at m (key_of bin))"
  by (simp add: mean_add_def)

lemma mean_step_cnt_off:
  "cnt_off (mean_step m b s) =
     (fst s + sint (count_at m (b - snd (snd s))) + sint (count_at m (b + snd (snd s))),
      snd (snd s) + 1)"
proof -
  obtain c x off where s: "s = (c, x, off)" by (cases s)
  obtain c1 x1 where l: "mean_add m (lower_bin b off) (c, x) = (c1, x1)"
    by (cases "mean_add m (lower_bin b off) (c, x)")
  obtain c2 x2 where u: "mean_add m (upper_bin b off) (c1, x1) = (c2, x2)"
    by (cases "mean_add m (upper_bin b off) (c1, x1)")
  have c1: "c1 = c + sint (count_at m (b - off))"
    using mean_add_fst [of m "lower_bin b off" "(c, x)"] l by (simp add: key_of_lower)
  have c2: "c2 = c1 + sint (count_at m (b + off))"
    using mean_add_fst [of m "upper_bin b off" "(c1, x1)"] u by (simp add: key_of_upper)
  have "cnt_off (mean_step m b s) = (c2, off + 1)"
    by (simp add: s mean_step_def l u cnt_off_def)
  then show ?thesis using c1 c2 by (simp add: s)
qed

lemma mean_funpow_cnt_off:
  "cnt_off ((mean_step m b ^^ j) s) =
     (fst s + (\<Sum>i<j. sint (count_at m (b - (snd (snd s) + of_nat i))) +
                       sint (count_at m (b + (snd (snd s) + of_nat i)))),
      snd (snd s) + of_nat j)"
proof (induction j)
  case 0
  then show ?case by (simp add: cnt_off_def)
next
  case (Suc j)
  have "cnt_off ((mean_step m b ^^ Suc j) s) = cnt_off (mean_step m b ((mean_step m b ^^ j) s))"
    by simp
  also have "\<dots> = (fst ((mean_step m b ^^ j) s)
        + sint (count_at m (b - snd (snd ((mean_step m b ^^ j) s))))
        + sint (count_at m (b + snd (snd ((mean_step m b ^^ j) s)))),
        snd (snd ((mean_step m b ^^ j) s)) + 1)"
    by (rule mean_step_cnt_off)
  finally show ?case using Suc.IH by (simp add: cnt_off_def add.assoc)
qed

lemma mean_loop_returns:
  "\<not> fst ((mean_step m b ^^ j) s) < t \<Longrightarrow> \<exists>r. mean_loop m b t s = Some r"
proof (induction j arbitrary: s)
  case 0
  then have "mean_loop m b t s = Some s" by (simp add: mean_loop_stop)
  then show ?case by blast
next
  case (Suc j)
  show ?case
  proof (cases "fst s < t")
    case True
    from Suc.prems have "\<not> fst ((mean_step m b ^^ j) (mean_step m b s)) < t"
      by (simp add: funpow_swap1)
    from Suc.IH [OF this] obtain r where "mean_loop m b t (mean_step m b s) = Some r" ..
    moreover have "mean_loop m b t s = mean_loop m b t (mean_step m b s)"
      using True by (subst mean_loop.simps) simp
    ultimately show ?thesis by metis
  next
    case False
    then have "mean_loop m b t s = Some s" by (simp add: mean_loop_stop)
    then show ?thesis by blast
  qed
qed

lemma key_cover:
  fixes k b :: short
  shows "k = b \<or> (\<exists>i<32768. k = b - (1 + of_nat i) \<or> k = b + (1 + of_nat i))"
proof -
  define d where "d = k - b"
  define n where "n = unat d"
  have n_lt: "n < 65536" using unsigned_less [of d, where 'a=nat] by (simp add: n_def)
  have dn: "of_nat n = d" by (simp add: n_def)
  have kb: "k = b + d" by (simp add: d_def)
  consider "n = 0" | "1 \<le> n" "n \<le> 32768" | "32768 < n" by linarith
  then show ?thesis
  proof cases
    case 1
    then have "d = 0" using dn by simp
    then show ?thesis using kb by simp
  next
    case 2
    then have "(1 :: short) + of_nat (n - 1) = of_nat n"
      by (metis Suc_pred' less_eq_Suc_le of_nat_Suc One_nat_def)
    then have "k = b + (1 + of_nat (n - 1))" using kb dn by simp
    moreover have "n - 1 < 32768" using 2 by simp
    ultimately show ?thesis by blast
  next
    case 3
    define i where "i = 65535 - n"
    have i: "i < 32768" using 3 by (simp add: i_def)
    have "Suc i + n = 65536" using n_lt by (simp add: i_def)
    then have "(of_nat (Suc i + n) :: short) = 0" by simp
    then have "(1 + of_nat i :: short) + d = 0" using dn by (simp add: ac_simps)
    then have "d = - (1 + of_nat i)" by (metis add.commute eq_neg_iff_add_eq_0)
    then have "k = b - (1 + of_nat i)" using kb by simp
    then show ?thesis using i by blast
  qed
qed

lemma sum_Un_le_nat:
  fixes f :: "'a \<Rightarrow> nat"
  assumes "finite A" "finite B"
  shows "sum f (A \<union> B) \<le> sum f A + sum f B"
  using sum.union_inter [OF assms, of f] by linarith

lemma count_sum_cover:
  fixes b :: short
  shows "length xs \<le> count_list xs b +
           (\<Sum>i<32768. count_list xs (b - (1 + of_nat i)) + count_list xs (b + (1 + of_nat i)))"
proof -
  let ?lo = "\<lambda>i::nat. b - (1 + of_nat i)"
  let ?hi = "\<lambda>i::nat. b + (1 + of_nat i)"
  let ?I = "{..<32768::nat}"
  have cover: "(UNIV :: short set) = {b} \<union> (?lo ` ?I \<union> ?hi ` ?I)"
    using key_cover [of _ b] by auto
  have "length xs = sum (count_list xs) (UNIV :: short set)"
    by (rule sum_count_set [symmetric]) simp_all
  also have "\<dots> = sum (count_list xs) ({b} \<union> (?lo ` ?I \<union> ?hi ` ?I))"
    using cover by simp
  also have "\<dots> \<le> sum (count_list xs) {b} + sum (count_list xs) (?lo ` ?I \<union> ?hi ` ?I)"
    by (rule sum_Un_le_nat) simp_all
  also have "sum (count_list xs) (?lo ` ?I \<union> ?hi ` ?I)
               \<le> sum (count_list xs) (?lo ` ?I) + sum (count_list xs) (?hi ` ?I)"
    by (rule sum_Un_le_nat) simp_all
  also have "sum (count_list xs) (?lo ` ?I) \<le> sum (count_list xs \<circ> ?lo) ?I"
    by (rule sum_image_le) simp_all
  also have "sum (count_list xs) (?hi ` ?I) \<le> sum (count_list xs \<circ> ?hi) ?I"
    by (rule sum_image_le) simp_all
  finally show ?thesis by (simp add: sum.distrib)
qed

lemma count_at_mem: "count_at m k \<noteq> 0 \<Longrightarrow> (k, count_at m k) \<in> set m"
  by (induction m) (auto split: if_splits)

lemma sint_count_at_populate:
  "length rawadc < 32768 \<Longrightarrow> sint (count_at (populate rawadc) k) = int (count_list rawadc k)"
proof -
  assume "length rawadc < 32768"
  then have "count_list rawadc k < 32768" using count_le_length [of rawadc k] by linarith
  then show ?thesis by (simp add: count_at_populate sint_small)
qed

lemma mode_count_ge:
  assumes "length rawadc < 32768"
  shows "int (count_list rawadc k) \<le> sint (snd (find_max_bin (populate rawadc)))"
proof (cases "count_list rawadc k = 0")
  case True
  then show ?thesis using find_max_bin_nonneg [of "populate rawadc"] by simp
next
  case False
  let ?m = "populate rawadc"
  have s: "sint (count_at ?m k) = int (count_list rawadc k)"
    by (rule sint_count_at_populate [OF assms])
  with False have "count_at ?m k \<noteq> 0" by auto
  then have "(k, count_at ?m k) \<in> set ?m" by (rule count_at_mem)
  moreover note fold_max_step [OF key_sorted_populate, of "(- 1, 0)" rawadc, folded find_max_bin_def]
  ultimately have "sint (count_at ?m k) \<le> sint (snd (find_max_bin ?m))" by fastforce
  then show ?thesis using s by simp
qed

lemma minNumBins_less:
  assumes "0 \<le> f" "n < 2 ^ 53"
  shows "minNumBins f n < int n"
proof (cases "n = 0")
  case True
  then show ?thesis by (simp add: minNumBins_no_samples)
next
  case False
  define a where "a = rnd 53 (1 - f)"
  define y where "y = rnd 53 (a * real n)"
  define w where "w = rnd 53 (y - 1)"
  have "1 - f \<le> real 1" using assms(1) by simp
  then have "a \<le> real 1" unfolding a_def by (rule rnd_le_nat) simp
  then have "a * real n \<le> 1 * real n" by (intro mult_right_mono) simp_all
  then have "a * real n \<le> real n" by simp
  then have "y \<le> real n" unfolding y_def by (rule rnd_le_nat) (rule assms(2))
  then have "y - 1 \<le> real (n - 1)" using False by (simp add: of_nat_diff)
  moreover have "n - 1 < 2 ^ 53" using assms(2) by simp
  ultimately have w: "w \<le> real (n - 1)" unfolding w_def by (rule rnd_le_nat)
  have "to_int w \<le> int (n - 1)"
  proof (cases "0 \<le> w")
    case True
    then have "to_int w = \<lfloor>w\<rfloor>" by (simp add: to_int_def)
    moreover have "\<lfloor>w\<rfloor> \<le> int (n - 1)" using w by (simp add: floor_le_iff)
    ultimately show ?thesis by simp
  next
    case neg: False
    then have "to_int w = - \<lfloor>- w\<rfloor>" by (simp add: to_int_def)
    moreover have "0 \<le> \<lfloor>- w\<rfloor>" using neg by (simp add: zero_le_floor)
    moreover have "0 \<le> int (n - 1)" by simp
    ultimately show ?thesis by linarith
  qed
  moreover have "minNumBins f n = to_int w" by (simp add: minNumBins_def w_def y_def a_def)
  ultimately show ?thesis using False by simp
qed

text \<open>
  On a window that was not clipped and holds fewer than 32768 samples both loops
  return: the offsets 1 .. 32768 reach every 16-bit key, so after at most 32768
  iterations the count is at least the number of samples, which exceeds the target.
\<close>

lemma analyze_channel_returns:
  assumes "length rawadc = dataSize" "dataSize < 32768" "0 \<le> f"
  shows "\<exists>st. analyze_channel f dataSize rawadc = Some st"
proof -
  let ?m = "populate rawadc"
  let ?t = "minNumBins f dataSize"
  have len: "length rawadc < 32768" using assms by simp
  have nw: "no_wrapped_count ?m" by (rule no_wrapped_count_populate [OF len])
  obtain b c where bc: "find_max_bin ?m = (b, c)" by (cases "find_max_bin ?m")
  have cb: "int (count_list rawadc b) \<le> sint c" using mode_count_ge [OF len, of b] bc by simp
  have enough: "\<not> fst ((mean_step ?m b ^^ 32768) (sint c, x, 1)) < ?t" for x
  proof -
    have "fst ((mean_step ?m b ^^ 32768) (sint c, x, 1)) =
            sint c + (\<Sum>i<32768. sint (count_at ?m (b - (1 + of_nat i))) +
                                  sint (count_at ?m (b + (1 + of_nat i))))"
      using mean_funpow_cnt_off [where m = ?m and b = b and j = 32768 and s = "(sint c, x, 1)"]
      by (simp add: cnt_off_def)
    also have "\<dots> = sint c + int (\<Sum>i<32768. count_list rawadc (b - (1 + of_nat i)) +
                                  count_list rawadc (b + (1 + of_nat i)))"
      by (simp add: sint_count_at_populate [OF len])
    also have "\<dots> \<ge> int (length rawadc)"
      using count_sum_cover [of rawadc b] cb by linarith
    finally have "int (length rawadc) \<le> fst ((mean_step ?m b ^^ 32768) (sint c, x, 1))" .
    moreover have "?t < int (length rawadc)" using minNumBins_less [OF assms(3), of dataSize] assms(1,2) by simp
    ultimately show ?thesis by linarith
  qed
  from mean_loop_returns [OF enough]
  obtain r1 where r1: "mean_loop ?m b ?t (sint c, Fin (of_int (sint c * sint b)), 1) = Some r1"
    by blast
  obtain c1 s1 o1 where r1': "r1 = (c1, s1, o1)" by (cases r1)
  define mu where "mu = ddiv s1 (Fin (of_int c1))"
  define d where "d = dsub (Fin (of_int (sint b))) mu"
  have "map_option cnt_off (mean_loop ?m b ?t (sint c, Fin (of_int (sint c * sint b)), 1)) =
        map_option cnt_off (rms_loop ?m b mu ?t (sint c, dmul d (dmul (Fin (of_int (sint c))) d), 1))"
    by (rule loops_agree [OF nw]) (simp add: cnt_off_def)
  with r1 obtain r2 where
    r2: "rms_loop ?m b mu ?t (sint c, dmul d (dmul (Fin (of_int (sint c))) d), 1) = Some r2"
    by (cases "rms_loop ?m b mu ?t (sint c, dmul d (dmul (Fin (of_int (sint c))) d), 1)") auto
  obtain c2 s2 o2 where r2': "r2 = (c2, s2, o2)" by (cases r2)
  have mp: "mean_pass ?m ?t = Some (c1, s1, o1)"
    using r1 r1' by (simp add: mean_pass_def bc)
  have rp: "rms_pass ?m ?t mu = Some (c2, s2, o2)"
    using r2 r2' by (simp add: rms_pass_def bc d_def Let_def)
  show ?thesis
    by (simp add: analyze_channel_def Let_def mp rp mu_def [symmetric])
qed

subsection \<open>The mode bin alone\<close>

text \<open>
  Claim C10, as the code has it: when the target is at most the count of the mode bin,
  neither loop is entered: both offsets are still 1 and both counts are the mode's
  count, and the rms is 0. When the mode's count is positive the truncated mean is the
  mode's value, the divisor being that count. When it is 0, as it is without any
  sample, the division is 0/0: the mean is NaN, not the mode's value, and the rms is 0
  only because std::max(0., NaN) is 0.
\<close>

theorem mode_bin_alone_suffices:
  assumes "minNumBins f dataSize \<le> sint (snd (find_max_bin (populate rawadc)))"
  shows "\<exists>st. analyze_channel f dataSize rawadc = Some st \<and>
           meanOffset st = 1 \<and> rmsOffset st = 1 \<and>
           curBinCnt st = sint (snd (find_max_bin (populate rawadc))) \<and>
           rmsBinCnt st = sint (snd (find_max_bin (populate rawadc))) \<and>
           rmsVal st = Fin 0 \<and>
           truncMean st =
             (if 0 < sint (snd (find_max_bin (populate rawadc)))
              then Fin (of_int (sint (fst (find_max_bin (populate rawadc))))) else NaN)"
proof -
  obtain b c where bc: "find_max_bin (populate rawadc) = (b, c)"
    by (cases "find_max_bin (populate rawadc)")
  have c0: "0 \<le> sint c" using find_max_bin_nonneg [of "populate rawadc"] bc by simp
  have le: "\<not> sint c < minNumBins f dataSize" using assms bc by simp
  show ?thesis
  proof (cases "0 < sint c")
    case True
    then have "c \<noteq> 0" by auto
    then have nz: "(signed c :: real) \<noteq> 0" by (simp add: signed_eq_0_iff)
    show ?thesis using True nz le bc
      by (simp add: analyze_channel_def mean_pass_def rms_pass_def mean_loop_stop rms_loop_stop dsub_def)
  next
    case False
    with c0 have z: "sint c = 0" by simp
    then have "c = 0" by (simp add: signed_eq_0_iff)
    then show ?thesis using z le bc
      by (simp add: analyze_channel_def mean_pass_def rms_pass_def mean_loop_stop rms_loop_stop dsub_def)
  qed
qed

text \<open>
  Witness for C10: ten samples, four of them 10, with the fraction 3/4: the target is 1,
  the mean is 10 and the rms is 0.
\<close>

theorem mode_bin_alone_suffices_witness:
  "minNumBins (3 / 4) 10 \<le> sint (snd (find_max_bin (populate [10, 10, 10, 10, 11, 11, 9, 9, 9, 12]))) \<and>
   (\<exists>st. analyze_channel (3 / 4) 10 [10, 10, 10, 10, 11, 11, 9, 9, 9, 12] = Some st \<and>
      meanOffset st = 1 \<and> rmsOffset st = 1 \<and> curBinCnt st = 4 \<and> rmsBinCnt st = 4 \<and>
      rmsVal st = Fin 0 \<and> truncMean st = Fin 10)"
proof -
  have v: "find_max_bin (populate [10, 10, 10, 10, 11, 11, 9, 9, 9, 12]) = (10, 4)"
    by (simp add: populate_def find_max_bin_def max_step_def)
  have h: "minNumBins (3 / 4) 10 \<le> sint (snd (find_max_bin (populate [10, 10, 10, 10, 11, 11, 9, 9, 9, 12])))"
    by (simp add: v minNumBins_def to_int_def rnd_exact [where k = 3])
  from mode_bin_alone_suffices [OF h] h show ?thesis by (simp add: v)
qed

text \<open>
  Counterexample to C10 as stated: without any sample the target -1 is below the mode's
  count 0 and no loop is entered, but the truncated mean is NaN and not the mode's
  value -1.
\<close>

theorem zero_samples_mean_is_NaN:
  "minNumBins (1 / 8) 0 \<le> sint (snd (find_max_bin (populate []))) \<and>
   fst (find_max_bin (populate [])) = - 1 \<and>
   map_option truncMean (analyze_channel (1 / 8) 0 []) = Some NaN \<and>
   map_option rmsVal (analyze_channel (1 / 8) 0 []) = Some (Fin 0)"
  by (simp add: analyze_channel_def populate_def minNumBins_def to_int_def rnd_exact [where k = 3] mean_pass_def
      rms_pass_def find_max_bin_def mean_loop_stop rms_loop_stop dsub_def)

end
